theory Spec2Isabelle
  imports Main "HOL-Library.Word"
begin

section \<open>WHERE-clause lowering of the QL executor (yb/ql/exec/eval_where.cc)\<close>

text \<open>
  A shallow embedding of \<^verbatim>\<open>Executor::WhereClauseToPB\<close> (both overloads) and of
  \<^verbatim>\<open>WhereOpToPB\<close>, \<^verbatim>\<open>WhereSubColOpToPB\<close> and \<^verbatim>\<open>FuncOpToPB\<close>.

  The request messages are mutated in place by the C++ code; here every function takes
  the request and returns the updated one. The three ways the code can end are kept
  apart: \<^verbatim>\<open>LOG(FATAL)\<close> and a failed \<^verbatim>\<open>CHECK\<close> abort the process, \<^verbatim>\<open>RETURN_NOT_OK\<close>
  returns the failed status of the callee, and \<^verbatim>\<open>return Status::OK()\<close> returns normally.
\<close>

subsection \<open>Protobuf messages\<close>

text \<open>The comparison and logical operators of \<^verbatim>\<open>QLOperator\<close> that the lowering can meet.\<close>

datatype QLOperator =
    QL_OP_NOOP
  | QL_OP_NOT
  | QL_OP_AND
  | QL_OP_OR
  | QL_OP_EQUAL
  | QL_OP_LESS_THAN
  | QL_OP_LESS_THAN_EQUAL
  | QL_OP_GREATER_THAN
  | QL_OP_GREATER_THAN_EQUAL
  | QL_OP_NOT_EQUAL
  | QL_OP_IN
  | QL_OP_NOT_IN

text \<open>
  \<^verbatim>\<open>QLValuePB\<close>: a oneof; only the alternatives the lowering looks at are told apart.
  \<open>ListValue\<close> is \<^verbatim>\<open>list_value\<close> with its repeated field \<^verbatim>\<open>elems\<close>.
\<close>

datatype QLValuePB =
    ValueNotSet
  | Int64Value "64 word"
  | StringValue string
  | ListValue "QLValuePB list"

text \<open>
  \<^verbatim>\<open>QLExpressionPB\<close>: a oneof of a value, a column reference, a subscripted column
  (column id and subscript arguments), a bind marker, a condition (\<^verbatim>\<open>QLConditionPB\<close>:
  operator and operands) and a built-in call. A freshly added message is \<open>ExprNotSet\<close>.
\<close>

datatype QLExpressionPB =
    ExprNotSet
  | Value QLValuePB
  | ColumnId int
  | SubscriptedCol int "QLExpressionPB list"
  | BindId int
  | Condition QLOperator "QLExpressionPB list"
  | BFCall int "QLExpressionPB list"

text \<open>
  \<^verbatim>\<open>col_pb->value().list_value().elems()\<close>: protobuf getters return the default (empty)
  message when the oneof holds another alternative, so anything but a list value has no
  elements.
\<close>

fun list_elems :: "QLExpressionPB \<Rightarrow> QLValuePB list" where
  "list_elems (Value (ListValue xs)) = xs"
| "list_elems _ = []"

text \<open>
  \<^verbatim>\<open>req->mutable_where_expr()->mutable_condition()\<close> keeps the operands of a condition that
  is already there and starts from an empty condition otherwise.
\<close>

fun condition_operands :: "QLExpressionPB option \<Rightarrow> QLExpressionPB list" where
  "condition_operands (Some (Condition opr xs)) = xs"
| "condition_operands _ = []"

record QLColumnValuePB =
  cv_column_id :: int
  cv_subscript_args :: "QLExpressionPB list"
  cv_expr :: QLExpressionPB

record QLWriteRequestPB =
  w_hashed_column_values :: "QLExpressionPB list"
  w_range_column_values :: "QLExpressionPB list"
  w_column_values :: "QLColumnValuePB list"

text \<open>
  Modelled from the spec: the read request message is declared outside this file; its
  \<open>hash_code\<close> and \<open>max_hash_code\<close> are optional unsigned 16-bit fields.
\<close>

record QLReadRequestPB =
  hashed_column_values :: "QLExpressionPB list"
  hash_code :: "16 word option"
  max_hash_code :: "16 word option"
  where_expr :: "QLExpressionPB option"

text \<open>Modelled from the spec: \<^verbatim>\<open>YBPartition::kMaxHashCode\<close> is \<open>MAX_HASH = 0xFFFF\<close>.\<close>

definition kMaxHashCode :: "16 word" where
  "kMaxHashCode = 0xFFFF"

subsection \<open>Analysed operations\<close>

text \<open>
  \<^verbatim>\<open>ColumnDesc\<close> as the lowering observes it: \<^verbatim>\<open>id()\<close>, \<^verbatim>\<open>is_hash()\<close> and \<^verbatim>\<open>is_primary()\<close>.
  The parse-tree expressions (\<^verbatim>\<open>PTExpr\<close>) are opaque to this file: the type \<open>'e\<close>.
\<close>

record ColumnDesc =
  col_id :: int
  is_hash :: bool
  is_primary :: bool

record 'e ColumnOp =
  co_desc :: ColumnDesc
  co_yb_op :: QLOperator
  co_expr :: 'e

record 'e SubscriptedColumnOp =
  sc_desc :: ColumnDesc
  sc_args :: "'e list"
  sc_yb_op :: QLOperator
  sc_expr :: 'e

record 'e FuncOp =
  fn_yb_op :: QLOperator
  fn_func_expr :: 'e
  fn_value_expr :: 'e

record 'e PartitionKeyOp =
  pk_yb_op :: QLOperator
  pk_expr :: 'e

subsection \<open>Outcomes and control flow\<close>

text \<open>
  How a call ends: \<open>Fatal\<close> is \<^verbatim>\<open>LOG(FATAL)\<close> or a failed \<^verbatim>\<open>CHECK\<close>, \<open>NotOK s\<close> a
  non-OK status \<open>s\<close> handed back by \<^verbatim>\<open>RETURN_NOT_OK\<close>, \<open>OK x\<close> is \<^verbatim>\<open>Status::OK()\<close> with the
  outputs \<open>x\<close>. After \<open>Fatal\<close> and \<open>NotOK\<close> the partly filled request is not described.
\<close>

datatype ('s, 'a) outcome = Fatal | NotOK 's | OK 'a

text \<open>
  What one pass through a loop body does: leave the function (\<open>Exit\<close>), leave the loop
  (\<open>Break\<close>), or go on with the next element (\<open>Next\<close>).
\<close>

datatype ('s, 'a, 'st) flow = Exit "('s, 'a) outcome" | Break 'st | Next 'st

text \<open>
  A \<^verbatim>\<open>for\<close> loop whose body lowers one element into a freshly added slot under
  \<^verbatim>\<open>RETURN_NOT_OK\<close>: the lowered elements in order, or the first failure.
\<close>

fun lower_each :: "('a \<Rightarrow> 's + 'b) \<Rightarrow> 'a list \<Rightarrow> 's + 'b list" where
  "lower_each f [] = Inr []"
| "lower_each f (x # xs) =
     (case f x of
        Inl s \<Rightarrow> Inl s
      | Inr y \<Rightarrow> (case lower_each f xs of Inl s \<Rightarrow> Inl s | Inr ys \<Rightarrow> Inr (y # ys)))"

subsection \<open>Residual conditions\<close>

text \<open>
  In all definitions below \<open>PTExprToPB\<close> is the executor's expression lowering. Every call
  in this file hands it a freshly added, empty message, so it is taken as a function from
  the parse-tree expression to a failed status or the filled message. \<open>Evaluate\<close> is
  \<^verbatim>\<open>YQLExpression::Evaluate\<close> on an empty row followed by \<^verbatim>\<open>result.int64_value()\<close>, and
  \<open>CqlToYBHashCode\<close> is \<^verbatim>\<open>YBPartition::CqlToYBHashCode\<close>.
\<close>

definition WhereOpToPB ::
  "('e \<Rightarrow> 's + QLExpressionPB) \<Rightarrow> 'e ColumnOp \<Rightarrow> 's + QLExpressionPB" where
  "WhereOpToPB PTExprToPB col_op =
     (case PTExprToPB (co_expr col_op) of
        Inl s \<Rightarrow> Inl s
      | Inr expr_pb \<Rightarrow>
          Inr (Condition (co_yb_op col_op) [ColumnId (col_id (co_desc col_op)), expr_pb]))"

definition WhereSubColOpToPB ::
  "('e \<Rightarrow> 's + QLExpressionPB) \<Rightarrow> 'e SubscriptedColumnOp \<Rightarrow> 's + QLExpressionPB" where
  "WhereSubColOpToPB PTExprToPB col_op =
     (case lower_each PTExprToPB (sc_args col_op) of
        Inl s \<Rightarrow> Inl s
      | Inr subscript_args \<Rightarrow>
          (case PTExprToPB (sc_expr col_op) of
             Inl s \<Rightarrow> Inl s
           | Inr expr_pb \<Rightarrow>
               Inr (Condition (sc_yb_op col_op)
                     [SubscriptedCol (col_id (sc_desc col_op)) subscript_args, expr_pb])))"

definition FuncOpToPB ::
  "('e \<Rightarrow> 's + QLExpressionPB) \<Rightarrow> 'e FuncOp \<Rightarrow> 's + QLExpressionPB" where
  "FuncOpToPB PTExprToPB func_op =
     (case PTExprToPB (fn_func_expr func_op) of
        Inl s \<Rightarrow> Inl s
      | Inr call_pb \<Rightarrow>
          (case PTExprToPB (fn_value_expr func_op) of
             Inl s \<Rightarrow> Inl s
           | Inr expr_pb \<Rightarrow> Inr (Condition (fn_yb_op func_op) [call_pb, expr_pb])))"

subsection \<open>The write path\<close>

text \<open>Body of the loop over \<^verbatim>\<open>key_where_ops\<close> (source lines 30 to 41).\<close>

definition write_key_op ::
  "('e \<Rightarrow> 's + QLExpressionPB) \<Rightarrow> 'e ColumnOp \<Rightarrow> QLWriteRequestPB
     \<Rightarrow> ('s, QLWriteRequestPB) outcome" where
  "write_key_op PTExprToPB op req =
     (if is_hash (co_desc op) then
        (case PTExprToPB (co_expr op) of
           Inl s \<Rightarrow> NotOK s
         | Inr col_expr_pb \<Rightarrow>
             OK (req\<lparr>w_hashed_column_values := w_hashed_column_values req @ [col_expr_pb]\<rparr>))
      else if is_primary (co_desc op) then
        (case PTExprToPB (co_expr op) of
           Inl s \<Rightarrow> NotOK s
         | Inr col_expr_pb \<Rightarrow>
             OK (req\<lparr>w_range_column_values := w_range_column_values req @ [col_expr_pb]\<rparr>))
      else Fatal)"

fun write_key_loop ::
  "('e \<Rightarrow> 's + QLExpressionPB) \<Rightarrow> 'e ColumnOp list \<Rightarrow> QLWriteRequestPB
     \<Rightarrow> ('s, QLWriteRequestPB) outcome" where
  "write_key_loop PTExprToPB [] req = OK req"
| "write_key_loop PTExprToPB (op # ops) req =
     (case write_key_op PTExprToPB op req of
        OK req' \<Rightarrow> write_key_loop PTExprToPB ops req'
      | Fatal \<Rightarrow> Fatal
      | NotOK s \<Rightarrow> NotOK s)"

text \<open>Body of the loop over \<^verbatim>\<open>subcol_where_ops\<close> (source lines 46 to 55).\<close>

definition write_subcol_op ::
  "('e \<Rightarrow> 's + QLExpressionPB) \<Rightarrow> 'e SubscriptedColumnOp \<Rightarrow> QLWriteRequestPB
     \<Rightarrow> ('s, QLWriteRequestPB) outcome" where
  "write_subcol_op PTExprToPB op req =
     (case lower_each PTExprToPB (sc_args op) of
        Inl s \<Rightarrow> NotOK s
      | Inr subscript_args \<Rightarrow>
          (case PTExprToPB (sc_expr op) of
             Inl s \<Rightarrow> NotOK s
           | Inr expr_pb \<Rightarrow>
               OK (req\<lparr>w_column_values := w_column_values req @
                     [\<lparr>cv_column_id = col_id (sc_desc op),
                       cv_subscript_args = subscript_args,
                       cv_expr = expr_pb\<rparr>]\<rparr>)))"

fun write_subcol_loop ::
  "('e \<Rightarrow> 's + QLExpressionPB) \<Rightarrow> 'e SubscriptedColumnOp list \<Rightarrow> QLWriteRequestPB
     \<Rightarrow> ('s, QLWriteRequestPB) outcome" where
  "write_subcol_loop PTExprToPB [] req = OK req"
| "write_subcol_loop PTExprToPB (op # ops) req =
     (case write_subcol_op PTExprToPB op req of
        OK req' \<Rightarrow> write_subcol_loop PTExprToPB ops req'
      | Fatal \<Rightarrow> Fatal
      | NotOK s \<Rightarrow> NotOK s)"

text \<open>\<^verbatim>\<open>Executor::WhereClauseToPB(QLWriteRequestPB *req, ...)\<close>.\<close>

definition WhereClauseToPB_write ::
  "('e \<Rightarrow> 's + QLExpressionPB) \<Rightarrow> QLWriteRequestPB \<Rightarrow> 'e ColumnOp list \<Rightarrow> 'e ColumnOp list
     \<Rightarrow> 'e SubscriptedColumnOp list \<Rightarrow> ('s, QLWriteRequestPB) outcome" where
  "WhereClauseToPB_write PTExprToPB req key_where_ops where_ops subcol_where_ops =
     (case write_key_loop PTExprToPB key_where_ops req of
        Fatal \<Rightarrow> Fatal
      | NotOK s \<Rightarrow> NotOK s
      | OK req1 \<Rightarrow>
          if where_ops \<noteq> [] then Fatal
          else write_subcol_loop PTExprToPB subcol_where_ops req1)"

subsection \<open>The read path\<close>

text \<open>
  Source lines 72 to 78: the right-hand side of a partition-key condition is lowered,
  folded to its 64-bit token and mapped to a 16-bit hash code.
\<close>

definition token_hash ::
  "('e \<Rightarrow> 's + QLExpressionPB) \<Rightarrow> (QLExpressionPB \<Rightarrow> 's + 64 word) \<Rightarrow> (64 word \<Rightarrow> 16 word)
     \<Rightarrow> 'e PartitionKeyOp \<Rightarrow> 's + 16 word" where
  "token_hash PTExprToPB Evaluate CqlToYBHashCode op =
     (case PTExprToPB (pk_expr op) of
        Inl s \<Rightarrow> Inl s
      | Inr expr_pb \<Rightarrow>
          (case Evaluate expr_pb of
             Inl s \<Rightarrow> Inl s
           | Inr result \<Rightarrow> Inr (CqlToYBHashCode result)))"

text \<open>
  Body of the loop over \<^verbatim>\<open>partition_key_ops\<close> (source lines 71 to 112). \<^verbatim>\<open>hash_code + 1\<close>
  is computed only where \<^verbatim>\<open>hash_code != kMaxHashCode\<close>, so the promoted sum fits 16 bits.
  Leaving with \<open>OK (req, True)\<close> is \<^verbatim>\<open>*no_results = true; return Status::OK();\<close>.
\<close>

definition partition_key_op ::
  "('e \<Rightarrow> 's + QLExpressionPB) \<Rightarrow> (QLExpressionPB \<Rightarrow> 's + 64 word) \<Rightarrow> (64 word \<Rightarrow> 16 word)
     \<Rightarrow> 'e PartitionKeyOp \<Rightarrow> QLReadRequestPB
     \<Rightarrow> ('s, QLReadRequestPB \<times> bool, QLReadRequestPB) flow" where
  "partition_key_op PTExprToPB Evaluate CqlToYBHashCode op req =
     (case token_hash PTExprToPB Evaluate CqlToYBHashCode op of
        Inl s \<Rightarrow> Exit (NotOK s)
      | Inr hc \<Rightarrow>
          (case pk_yb_op op of
             QL_OP_GREATER_THAN \<Rightarrow>
               if hc \<noteq> kMaxHashCode then Next (req\<lparr>hash_code := Some (hc + 1)\<rparr>)
               else Exit (OK (req, True))
           | QL_OP_GREATER_THAN_EQUAL \<Rightarrow> Next (req\<lparr>hash_code := Some hc\<rparr>)
           | QL_OP_LESS_THAN \<Rightarrow> Next (req\<lparr>max_hash_code := Some hc\<rparr>)
           | QL_OP_LESS_THAN_EQUAL \<Rightarrow>
               if hc \<noteq> kMaxHashCode then Next (req\<lparr>max_hash_code := Some (hc + 1)\<rparr>)
               else Next req
           | QL_OP_EQUAL \<Rightarrow>
               if hc \<noteq> kMaxHashCode
               then Next (req\<lparr>hash_code := Some hc, max_hash_code := Some (hc + 1)\<rparr>)
               else Next (req\<lparr>hash_code := Some hc\<rparr>)
           | _ \<Rightarrow> Exit Fatal))"

fun partition_key_loop ::
  "('e \<Rightarrow> 's + QLExpressionPB) \<Rightarrow> (QLExpressionPB \<Rightarrow> 's + 64 word) \<Rightarrow> (64 word \<Rightarrow> 16 word)
     \<Rightarrow> 'e PartitionKeyOp list \<Rightarrow> QLReadRequestPB
     \<Rightarrow> ('s, QLReadRequestPB \<times> bool, QLReadRequestPB) flow" where
  "partition_key_loop PTExprToPB Evaluate CqlToYBHashCode [] req = Next req"
| "partition_key_loop PTExprToPB Evaluate CqlToYBHashCode (op # ops) req =
     (case partition_key_op PTExprToPB Evaluate CqlToYBHashCode op req of
        Next req' \<Rightarrow> partition_key_loop PTExprToPB Evaluate CqlToYBHashCode ops req'
      | Break req' \<Rightarrow> Break req'
      | Exit out \<Rightarrow> Exit out)"

text \<open>
  Body of the loop over \<^verbatim>\<open>key_where_ops\<close> (source lines 116 to 140); the loop state is the
  request and \<^verbatim>\<open>key_ops_are_set\<close>. The three branches on \<^verbatim>\<open>in_size\<close> (0, 1, more) are the
  three shapes of the element list. In the one-element branch the source swaps the value
  of the slot with its own first element, which leaves that element in the slot.
\<close>

definition key_where_op ::
  "('e \<Rightarrow> 's + QLExpressionPB) \<Rightarrow> 'e ColumnOp \<Rightarrow> QLReadRequestPB \<times> bool
     \<Rightarrow> ('s, QLReadRequestPB \<times> bool, QLReadRequestPB \<times> bool) flow" where
  "key_where_op PTExprToPB op st =
     (case st of (req, key_ops_are_set) \<Rightarrow>
        if \<not> is_hash (co_desc op) then Exit Fatal
        else
          (case PTExprToPB (co_expr op) of
             Inl s \<Rightarrow> Exit (NotOK s)
           | Inr col_pb \<Rightarrow>
               if co_yb_op op = QL_OP_IN then
                 (case list_elems col_pb of
                    [] \<Rightarrow>
                      Exit (OK (req\<lparr>hashed_column_values :=
                                      hashed_column_values req @ [col_pb]\<rparr>, True))
                  | [value_pb] \<Rightarrow>
                      Next (req\<lparr>hashed_column_values :=
                                  hashed_column_values req @ [Value value_pb]\<rparr>,
                            key_ops_are_set)
                  | _ \<Rightarrow> Break (req\<lparr>hashed_column_values := []\<rparr>, False))
               else
                 Next (req\<lparr>hashed_column_values := hashed_column_values req @ [col_pb]\<rparr>,
                       key_ops_are_set)))"

fun key_where_loop ::
  "('e \<Rightarrow> 's + QLExpressionPB) \<Rightarrow> 'e ColumnOp list \<Rightarrow> QLReadRequestPB \<times> bool
     \<Rightarrow> ('s, QLReadRequestPB \<times> bool, QLReadRequestPB \<times> bool) flow" where
  "key_where_loop PTExprToPB [] st = Next st"
| "key_where_loop PTExprToPB (op # ops) st =
     (case key_where_op PTExprToPB op st of
        Next st' \<Rightarrow> key_where_loop PTExprToPB ops st'
      | Break st' \<Rightarrow> Break st'
      | Exit out \<Rightarrow> Exit out)"

text \<open>
  Source lines 142 to 165, entered with the request and \<^verbatim>\<open>key_ops_are_set\<close> as the key loop
  left them: the early return when there is nothing to filter, else the AND condition
  with its operands appended group by group.
\<close>

definition where_clause ::
  "('e \<Rightarrow> 's + QLExpressionPB) \<Rightarrow> QLReadRequestPB \<times> bool \<Rightarrow> 'e ColumnOp list
     \<Rightarrow> 'e ColumnOp list \<Rightarrow> 'e SubscriptedColumnOp list \<Rightarrow> 'e FuncOp list
     \<Rightarrow> ('s, QLReadRequestPB \<times> bool) outcome" where
  "where_clause PTExprToPB st key_where_ops where_ops subcol_where_ops func_ops =
     (case st of (req, key_ops_are_set) \<Rightarrow>
        if key_ops_are_set \<and> where_ops = [] \<and> subcol_where_ops = [] \<and> func_ops = []
        then OK (req, False)
        else
          (case lower_each (WhereOpToPB PTExprToPB)
                  (if \<not> key_ops_are_set then key_where_ops else []) of
             Inl s \<Rightarrow> NotOK s
           | Inr ks \<Rightarrow>
          (case lower_each (WhereOpToPB PTExprToPB) where_ops of
             Inl s \<Rightarrow> NotOK s
           | Inr ws \<Rightarrow>
          (case lower_each (WhereSubColOpToPB PTExprToPB) subcol_where_ops of
             Inl s \<Rightarrow> NotOK s
           | Inr ss \<Rightarrow>
          (case lower_each (FuncOpToPB PTExprToPB) func_ops of
             Inl s \<Rightarrow> NotOK s
           | Inr fs \<Rightarrow>
               OK (req\<lparr>where_expr :=
                          Some (Condition QL_OP_AND
                                  (condition_operands (where_expr req) @ ks @ ws @ ss @ fs))\<rparr>,
                   False))))))"

text \<open>
  What follows a loop: a \<^verbatim>\<open>return\<close> inside the loop ends the function, a \<^verbatim>\<open>break\<close> and the
  normal end of the loop both go on with the code after it.
\<close>

fun after_loop :: "('s, 'a, 'st) flow \<Rightarrow> ('st \<Rightarrow> ('s, 'a) outcome) \<Rightarrow> ('s, 'a) outcome" where
  "after_loop (Exit out) rest = out"
| "after_loop (Break st) rest = rest st"
| "after_loop (Next st) rest = rest st"

text \<open>
  \<^verbatim>\<open>Executor::WhereClauseToPB(QLReadRequestPB *req, ..., bool *no_results)\<close>. The result
  \<open>OK (req', no_results)\<close> carries the request and the flag as the call leaves them.
\<close>

definition WhereClauseToPB_read ::
  "('e \<Rightarrow> 's + QLExpressionPB) \<Rightarrow> (QLExpressionPB \<Rightarrow> 's + 64 word) \<Rightarrow> (64 word \<Rightarrow> 16 word)
     \<Rightarrow> QLReadRequestPB \<Rightarrow> 'e ColumnOp list \<Rightarrow> 'e ColumnOp list
     \<Rightarrow> 'e SubscriptedColumnOp list \<Rightarrow> 'e PartitionKeyOp list \<Rightarrow> 'e FuncOp list
     \<Rightarrow> ('s, QLReadRequestPB \<times> bool) outcome" where
  "WhereClauseToPB_read PTExprToPB Evaluate CqlToYBHashCode req key_where_ops where_ops
       subcol_where_ops partition_key_ops func_ops =
     after_loop
       (partition_key_loop PTExprToPB Evaluate CqlToYBHashCode partition_key_ops req)
       (\<lambda>req1.
          after_loop (key_where_loop PTExprToPB key_where_ops (req1, True))
            (\<lambda>st. where_clause PTExprToPB st key_where_ops where_ops subcol_where_ops
                     func_ops))"

subsection \<open>Sample collaborators and inputs\<close>

text \<open>
  The lowering is proved for every expression lowering, evaluator and hash mapping. To run
  it on concrete inputs the following stand-ins are used: parse-tree expressions are
  literals, column references, or an expression whose lowering fails; a constant folds to
  its 64-bit value; and the hash code of a token is its low 16 bits, so that a token
  written \<open>100\<close> has the hash code \<open>100\<close>, the way the scenarios of the specification
  write them.
\<close>

datatype sample_expr = Lit QLValuePB | Ref int | Unlowerable

fun sample_PTExprToPB :: "sample_expr \<Rightarrow> string + QLExpressionPB" where
  "sample_PTExprToPB (Lit v) = Inr (Value v)"
| "sample_PTExprToPB (Ref c) = Inr (ColumnId c)"
| "sample_PTExprToPB Unlowerable = Inl ''lowering failed''"

fun sample_Evaluate :: "QLExpressionPB \<Rightarrow> string + 64 word" where
  "sample_Evaluate (Value (Int64Value t)) = Inr t"
| "sample_Evaluate _ = Inl ''not a constant token''"

definition sample_CqlToYBHashCode :: "64 word \<Rightarrow> 16 word" where
  "sample_CqlToYBHashCode t = ucast t"

definition int_lit :: "64 word \<Rightarrow> sample_expr" where
  "int_lit n = Lit (Int64Value n)"

definition list_lit :: "64 word list \<Rightarrow> sample_expr" where
  "list_lit ns = Lit (ListValue (map Int64Value ns))"

definition hash_col :: "int \<Rightarrow> ColumnDesc" where
  "hash_col c = \<lparr>col_id = c, is_hash = True, is_primary = True\<rparr>"

definition range_col :: "int \<Rightarrow> ColumnDesc" where
  "range_col c = \<lparr>col_id = c, is_hash = False, is_primary = True\<rparr>"

definition regular_col :: "int \<Rightarrow> ColumnDesc" where
  "regular_col c = \<lparr>col_id = c, is_hash = False, is_primary = False\<rparr>"

definition col_op :: "ColumnDesc \<Rightarrow> QLOperator \<Rightarrow> sample_expr \<Rightarrow> sample_expr ColumnOp" where
  "col_op d opr e = \<lparr>co_desc = d, co_yb_op = opr, co_expr = e\<rparr>"

definition sub_op ::
  "ColumnDesc \<Rightarrow> sample_expr list \<Rightarrow> QLOperator \<Rightarrow> sample_expr
     \<Rightarrow> sample_expr SubscriptedColumnOp" where
  "sub_op d as opr e = \<lparr>sc_desc = d, sc_args = as, sc_yb_op = opr, sc_expr = e\<rparr>"

definition token_op :: "QLOperator \<Rightarrow> 64 word \<Rightarrow> sample_expr PartitionKeyOp" where
  "token_op opr t = \<lparr>pk_yb_op = opr, pk_expr = int_lit t\<rparr>"

definition new_read_request :: QLReadRequestPB where
  "new_read_request =
     \<lparr>hashed_column_values = [], hash_code = None, max_hash_code = None, where_expr = None\<rparr>"

definition new_write_request :: QLWriteRequestPB where
  "new_write_request =
     \<lparr>w_hashed_column_values = [], w_range_column_values = [], w_column_values = []\<rparr>"

text \<open>The read and the write lowering run with the sample collaborators.\<close>

definition sample_read ::
  "QLReadRequestPB \<Rightarrow> sample_expr ColumnOp list \<Rightarrow> sample_expr ColumnOp list
     \<Rightarrow> sample_expr SubscriptedColumnOp list \<Rightarrow> sample_expr PartitionKeyOp list
     \<Rightarrow> sample_expr FuncOp list \<Rightarrow> (string, QLReadRequestPB \<times> bool) outcome" where
  "sample_read = WhereClauseToPB_read sample_PTExprToPB sample_Evaluate sample_CqlToYBHashCode"

definition sample_write ::
  "QLWriteRequestPB \<Rightarrow> sample_expr ColumnOp list \<Rightarrow> sample_expr ColumnOp list
     \<Rightarrow> sample_expr SubscriptedColumnOp list \<Rightarrow> (string, QLWriteRequestPB) outcome" where
  "sample_write = WhereClauseToPB_write sample_PTExprToPB"

subsection \<open>The transition table of the specification\<close>

text \<open>
  The table of the token-bound reducer, written from the specification's words over
  natural numbers, to be compared with \<open>partition_key_loop\<close>. The interval is the pair of
  the optional lower bound \<open>hash_code\<close> and the optional upper bound \<open>max_hash_code\<close>.
\<close>

definition MAX_HASH :: nat where
  "MAX_HASH = 65535"

datatype table_result =
    Declared_Empty
  | Table_Fatal
  | Bounds "nat option" "nat option"

fun table_effect :: "QLOperator \<Rightarrow> nat \<Rightarrow> nat option \<times> nat option \<Rightarrow> table_result" where
  "table_effect QL_OP_GREATER_THAN v (lo, hi) =
     (if v = MAX_HASH then Declared_Empty else Bounds (Some (v + 1)) hi)"
| "table_effect QL_OP_GREATER_THAN_EQUAL v (lo, hi) = Bounds (Some v) hi"
| "table_effect QL_OP_LESS_THAN v (lo, hi) = Bounds lo (Some v)"
| "table_effect QL_OP_LESS_THAN_EQUAL v (lo, hi) =
     (if v = MAX_HASH then Bounds lo hi else Bounds lo (Some (v + 1)))"
| "table_effect QL_OP_EQUAL v (lo, hi) =
     Bounds (Some v) (if v \<noteq> MAX_HASH then Some (v + 1) else hi)"
| "table_effect _ v (lo, hi) = Table_Fatal"

text \<open>The table applied to the operations in order.\<close>

fun table_reduce :: "(QLOperator \<times> nat) list \<Rightarrow> nat option \<times> nat option \<Rightarrow> table_result" where
  "table_reduce [] (lo, hi) = Bounds lo hi"
| "table_reduce ((opr, v) # rest) (lo, hi) =
     (case table_effect opr v (lo, hi) of
        Bounds lo' hi' \<Rightarrow> table_reduce rest (lo', hi')
      | Declared_Empty \<Rightarrow> Declared_Empty
      | Table_Fatal \<Rightarrow> Table_Fatal)"

text \<open>The interval a read request carries, as numbers.\<close>

definition interval_of :: "QLReadRequestPB \<Rightarrow> nat option \<times> nat option" where
  "interval_of req = (map_option unat (hash_code req), map_option unat (max_hash_code req))"

section \<open>Properties\<close>

subsection \<open>Hash codes next to the maximum\<close>

lemma kMaxHashCode_minus_1: "kMaxHashCode = - 1"
  by (simp add: kMaxHashCode_def)

lemma less_succ_hash: "hc \<noteq> kMaxHashCode \<Longrightarrow> hc < hc + 1"
  using inc_less_eq_self_iff_eq [of hc] by (simp add: kMaxHashCode_minus_1 not_le)

lemma unat_succ_hash: "hc \<noteq> kMaxHashCode \<Longrightarrow> unat (hc + 1) = unat hc + 1"
  using unatSuc [of hc] max_word_wrap [of hc]
  by (auto simp: kMaxHashCode_minus_1 add.commute)

lemma unat_eq_MAX_HASH: "(unat hc = MAX_HASH) = (hc = kMaxHashCode)"
proof -
  have "unat kMaxHashCode = MAX_HASH"
    by (simp add: kMaxHashCode_def MAX_HASH_def)
  then show ?thesis
    by (metis word_unat_eq_iff)
qed

subsection \<open>The loops, piece by piece\<close>

lemma partition_key_op_not_Break: "partition_key_op P E H op req \<noteq> Break r"
  by (simp add: partition_key_op_def split: sum.splits QLOperator.splits)

lemma partition_key_loop_not_Break: "partition_key_loop P E H ops req \<noteq> Break r"
  by (induction ops arbitrary: req) (auto split: flow.splits simp: partition_key_op_not_Break)

lemma partition_key_loop_append:
  "partition_key_loop P E H (xs @ ys) req =
     (case partition_key_loop P E H xs req of
        Next r \<Rightarrow> partition_key_loop P E H ys r
      | Break r \<Rightarrow> Break r
      | Exit out \<Rightarrow> Exit out)"
  by (induction xs arbitrary: req) (auto split: flow.splits)

lemma key_where_loop_append:
  "key_where_loop P (xs @ ys) st =
     (case key_where_loop P xs st of
        Next st' \<Rightarrow> key_where_loop P ys st'
      | Break st' \<Rightarrow> Break st'
      | Exit out \<Rightarrow> Exit out)"
  by (induction xs arbitrary: st) (auto split: flow.splits)

text \<open>One partition-key operation against one row of the table.\<close>

lemma partition_key_op_table:
  assumes "token_hash P E H op = Inr v"
  shows "case table_effect (pk_yb_op op) (unat v) (interval_of req) of
           Declared_Empty \<Rightarrow> partition_key_op P E H op req = Exit (OK (req, True))
         | Table_Fatal \<Rightarrow> partition_key_op P E H op req = Exit Fatal
         | Bounds lo hi \<Rightarrow>
             (\<exists>r. partition_key_op P E H op req = Next r \<and> interval_of r = (lo, hi) \<and>
                  hashed_column_values r = hashed_column_values req \<and>
                  where_expr r = where_expr req)"
  using assms
  by (cases "pk_yb_op op")
     (auto simp: partition_key_op_def interval_of_def unat_eq_MAX_HASH unat_succ_hash)

text \<open>What the partition-key loop can do to a request.\<close>

lemma partition_key_op_Next:
  assumes "partition_key_op P E H op req = Next r"
  shows "hashed_column_values r = hashed_column_values req \<and> where_expr r = where_expr req"
  using assms
  by (auto simp: partition_key_op_def split: sum.splits QLOperator.splits if_splits)

lemma partition_key_op_Exit_OK:
  assumes "partition_key_op P E H op req = Exit (OK (r, nr))"
  shows "nr \<and> r = req"
  using assms
  by (auto simp: partition_key_op_def split: sum.splits QLOperator.splits if_splits)

lemma partition_key_loop_Next:
  assumes "partition_key_loop P E H ops req = Next r"
  shows "hashed_column_values r = hashed_column_values req \<and> where_expr r = where_expr req"
  using assms
proof (induction ops arbitrary: req)
  case Nil
  then show ?case by simp
next
  case (Cons op ops)
  from Cons.prems obtain r1 where
    step: "partition_key_op P E H op req = Next r1" and
    rest: "partition_key_loop P E H ops r1 = Next r"
    by (auto split: flow.splits)
  from partition_key_op_Next [OF step] Cons.IH [OF rest] show ?case by simp
qed

lemma partition_key_loop_Exit_OK:
  assumes "partition_key_loop P E H ops req = Exit (OK (r, nr))"
  shows "nr \<and> hashed_column_values r = hashed_column_values req \<and>
         where_expr r = where_expr req"
  using assms
proof (induction ops arbitrary: req)
  case Nil
  then show ?case by simp
next
  case (Cons op ops)
  show ?case
  proof (cases "partition_key_op P E H op req")
    case (Exit out)
    with Cons.prems have "partition_key_op P E H op req = Exit (OK (r, nr))" by simp
    from partition_key_op_Exit_OK [OF this] show ?thesis by simp
  next
    case (Break r1)
    with Cons.prems show ?thesis by simp
  next
    case (Next r1)
    with Cons.prems have rest: "partition_key_loop P E H ops r1 = Exit (OK (r, nr))" by simp
    from partition_key_op_Next [OF Next] Cons.IH [OF rest] show ?thesis by simp
  qed
qed

text \<open>What one key operation, and the key loop, can do to a request.\<close>

lemma key_where_op_Next:
  assumes "key_where_op P op (req, k) = Next (r, k')"
  shows "k' = k \<and> is_hash (co_desc op) \<and>
         (\<exists>x. P (co_expr op) = Inr x \<and>
              (co_yb_op op = QL_OP_IN \<longrightarrow> length (list_elems x) = 1) \<and>
              r = req\<lparr>hashed_column_values := hashed_column_values req @
                    [if co_yb_op op = QL_OP_IN then Value (hd (list_elems x)) else x]\<rparr>)"
  using assms
  by (auto simp: key_where_op_def split: if_splits sum.splits list.splits)

lemma key_where_op_Break:
  assumes "key_where_op P op (req, k) = Break (r, k')"
  shows "\<not> k' \<and> r = req\<lparr>hashed_column_values := []\<rparr> \<and> co_yb_op op = QL_OP_IN \<and>
         (\<exists>x. P (co_expr op) = Inr x \<and> 2 \<le> length (list_elems x))"
  using assms
  by (auto simp: key_where_op_def split: if_splits sum.splits list.splits)

lemma key_where_op_Exit_OK:
  assumes "key_where_op P op (req, k) = Exit (OK (r, nr))"
  shows "nr \<and> co_yb_op op = QL_OP_IN \<and>
         (\<exists>x. P (co_expr op) = Inr x \<and> list_elems x = [] \<and>
              r = req\<lparr>hashed_column_values := hashed_column_values req @ [x]\<rparr>)"
  using assms
  by (auto simp: key_where_op_def split: if_splits sum.splits list.splits)

lemma key_where_loop_Next:
  assumes "key_where_loop P ops (req, k) = Next (r, k')"
  shows "k' = k \<and>
         (\<exists>bs. r = req\<lparr>hashed_column_values := hashed_column_values req @ bs\<rparr> \<and>
               list_all2 (\<lambda>op b. \<exists>x. P (co_expr op) = Inr x \<and>
                   b = (if co_yb_op op = QL_OP_IN then Value (hd (list_elems x)) else x))
                 ops bs)"
  using assms
proof (induction ops arbitrary: req k)
  case Nil
  then show ?case by simp
next
  case (Cons op ops)
  from Cons.prems obtain r1 k1 where
    step: "key_where_op P op (req, k) = Next (r1, k1)" and
    rest: "key_where_loop P ops (r1, k1) = Next (r, k')"
    by (auto split: flow.splits)
  from key_where_op_Next [OF step] obtain x where x: "k1 = k" "P (co_expr op) = Inr x"
    "r1 = req\<lparr>hashed_column_values := hashed_column_values req @
                    [if co_yb_op op = QL_OP_IN then Value (hd (list_elems x)) else x]\<rparr>"
    by blast
  from Cons.IH [OF rest] obtain bs where bs: "k' = k1"
    "r = r1\<lparr>hashed_column_values := hashed_column_values r1 @ bs\<rparr>"
    "list_all2 (\<lambda>op b. \<exists>x. P (co_expr op) = Inr x \<and>
                   b = (if co_yb_op op = QL_OP_IN then Value (hd (list_elems x)) else x))
                 ops bs"
    by blast
  let ?b = "if co_yb_op op = QL_OP_IN then Value (hd (list_elems x)) else x"
  have "r = req\<lparr>hashed_column_values := hashed_column_values req @ (?b # bs)\<rparr>"
    using x bs by simp
  moreover have "list_all2 (\<lambda>op b. \<exists>x. P (co_expr op) = Inr x \<and>
                   b = (if co_yb_op op = QL_OP_IN then Value (hd (list_elems x)) else x))
                 (op # ops) (?b # bs)"
    using x bs by simp
  ultimately show ?case using x bs by blast
qed

lemma key_where_loop_Next_no_multi:
  assumes "key_where_loop P ops st = Next st'"
    and "m \<in> set ops" and "co_yb_op m = QL_OP_IN" and "P (co_expr m) = Inr x"
  shows "length (list_elems x) = 1"
  using assms
proof (induction ops arbitrary: st)
  case Nil
  then show ?case by simp
next
  case (Cons op ops)
  obtain req k where st: "st = (req, k)" by (cases st)
  from Cons.prems(1) obtain st1 where
    step: "key_where_op P op st = Next st1" and
    rest: "key_where_loop P ops st1 = Next st'"
    by (auto split: flow.splits)
  show ?case
  proof (cases "m = op")
    case True
    obtain r1 k1 where "st1 = (r1, k1)" by (cases st1)
    with step st key_where_op_Next [of P op req k r1 k1] Cons.prems(3,4) True
    show ?thesis by auto
  next
    case False
    with Cons.prems(2) have "m \<in> set ops" by simp
    from Cons.IH [OF rest this Cons.prems(3,4)] show ?thesis .
  qed
qed

lemma key_where_loop_Break:
  assumes "key_where_loop P ops (req, k) = Break (r, k')"
  shows "\<not> k' \<and> r = req\<lparr>hashed_column_values := []\<rparr>"
  using assms
proof (induction ops arbitrary: req k)
  case Nil
  then show ?case by simp
next
  case (Cons op ops)
  show ?case
  proof (cases "key_where_op P op (req, k)")
    case (Exit out)
    with Cons.prems show ?thesis by simp
  next
    case (Break st)
    with Cons.prems key_where_op_Break [of P op req k r k'] show ?thesis by simp
  next
    case (Next st)
    obtain r1 k1 where st: "st = (r1, k1)" by (cases st)
    with Next Cons.prems have rest: "key_where_loop P ops (r1, k1) = Break (r, k')" by simp
    from key_where_op_Next [of P op req k r1 k1] Next st
    obtain b where "r1 = req\<lparr>hashed_column_values := hashed_column_values req @ [b]\<rparr>"
      by auto
    with Cons.IH [OF rest] show ?thesis by simp
  qed
qed

lemma key_where_loop_Exit_OK:
  assumes "key_where_loop P ops (req, k) = Exit (OK (r, nr))"
  shows "nr \<and> (\<exists>bs. r = req\<lparr>hashed_column_values := hashed_column_values req @ bs\<rparr> \<and>
                     bs \<noteq> [] \<and> length bs \<le> length ops)"
  using assms
proof (induction ops arbitrary: req k)
  case Nil
  then show ?case by simp
next
  case (Cons op ops)
  show ?case
  proof (cases "key_where_op P op (req, k)")
    case (Exit out)
    with Cons.prems key_where_op_Exit_OK [of P op req k r nr] show ?thesis by auto
  next
    case (Break st)
    with Cons.prems show ?thesis by simp
  next
    case (Next st)
    obtain r1 k1 where st: "st = (r1, k1)" by (cases st)
    with Next Cons.prems have rest: "key_where_loop P ops (r1, k1) = Exit (OK (r, nr))" by simp
    from key_where_op_Next [of P op req k r1 k1] Next st
    obtain b where b: "r1 = req\<lparr>hashed_column_values := hashed_column_values req @ [b]\<rparr>"
      by auto
    from Cons.IH [OF rest] obtain bs where bs: "nr"
      "r = r1\<lparr>hashed_column_values := hashed_column_values r1 @ bs\<rparr>" "length bs \<le> length ops"
      by blast
    have "r = req\<lparr>hashed_column_values := hashed_column_values req @ (b # bs)\<rparr>"
      using b bs by simp
    moreover have "b # bs \<noteq> []" "length (b # bs) \<le> length (op # ops)" using bs by simp_all
    ultimately show ?thesis using bs(1) by blast
  qed
qed

text \<open>The residual stage, and the ways the read lowering returns normally.\<close>

lemma lower_each_member:
  assumes "lower_each f xs = Inr ys" and "x \<in> set xs"
  shows "\<exists>y. f x = Inr y \<and> y \<in> set ys"
  using assms
  by (induction xs arbitrary: ys) (auto split: sum.splits)

lemma where_clause_OK:
  assumes "where_clause P (req, k) key_ops where_ops subcol_ops func_ops = OK (r, nr)"
  shows "\<not> nr \<and>
         (if k \<and> where_ops = [] \<and> subcol_ops = [] \<and> func_ops = [] then r = req
          else \<exists>ks ws ss fs.
                 lower_each (WhereOpToPB P) (if \<not> k then key_ops else []) = Inr ks \<and>
                 lower_each (WhereOpToPB P) where_ops = Inr ws \<and>
                 lower_each (WhereSubColOpToPB P) subcol_ops = Inr ss \<and>
                 lower_each (FuncOpToPB P) func_ops = Inr fs \<and>
                 r = req\<lparr>where_expr := Some (Condition QL_OP_AND
                            (condition_operands (where_expr req) @ ks @ ws @ ss @ fs))\<rparr>)"
  using assms
  by (auto simp: where_clause_def split: if_splits sum.splits)

lemma read_OK_cases:
  assumes "WhereClauseToPB_read P E H req key_ops where_ops subcol_ops pk_ops func_ops = OK (r, nr)"
  shows "partition_key_loop P E H pk_ops req = Exit (OK (r, nr)) \<or>
         (\<exists>r1. partition_key_loop P E H pk_ops req = Next r1 \<and>
            (key_where_loop P key_ops (r1, True) = Exit (OK (r, nr)) \<or>
             (\<exists>r2 k. (key_where_loop P key_ops (r1, True) = Next (r2, k) \<or>
                       key_where_loop P key_ops (r1, True) = Break (r2, k)) \<and>
                where_clause P (r2, k) key_ops where_ops subcol_ops func_ops = OK (r, nr))))"
proof (cases "partition_key_loop P E H pk_ops req")
  case (Exit out)
  with assms show ?thesis by (simp add: WhereClauseToPB_read_def)
next
  case (Break r1)
  then show ?thesis by (simp add: partition_key_loop_not_Break)
next
  case (Next r1)
  show ?thesis
  proof (cases "key_where_loop P key_ops (r1, True)")
    case (Exit out)
    with assms Next show ?thesis by (simp add: WhereClauseToPB_read_def)
  next
    case (Break st)
    with assms Next show ?thesis by (cases st) (simp add: WhereClauseToPB_read_def)
  next
    case Next2: (Next st)
    with assms Next show ?thesis by (cases st) (simp add: WhereClauseToPB_read_def)
  qed
qed

text \<open>The two early returns of the read lowering, met after a scanned prefix.\<close>

lemma read_token_exit:
  assumes "partition_key_loop P E H pre req = Next r1"
    and "pk_yb_op tok = QL_OP_GREATER_THAN" and "token_hash P E H tok = Inr kMaxHashCode"
  shows "WhereClauseToPB_read P E H req key_ops where_ops subcol_ops (pre @ tok # post) func_ops
         = OK (r1, True)"
proof -
  have "partition_key_op P E H tok r1 = Exit (OK (r1, True))"
    using assms(2,3) by (simp add: partition_key_op_def)
  then have "partition_key_loop P E H (pre @ tok # post) req = Exit (OK (r1, True))"
    using assms(1) by (simp add: partition_key_loop_append)
  then show ?thesis by (simp add: WhereClauseToPB_read_def)
qed

lemma read_empty_IN_exit:
  assumes "partition_key_loop P E H pk_ops req = Next r1"
    and "key_where_loop P kpre (r1, True) = Next (r2, k)"
    and "is_hash (co_desc kop)" and "co_yb_op kop = QL_OP_IN"
    and "P (co_expr kop) = Inr col_pb" and "list_elems col_pb = []"
  shows "WhereClauseToPB_read P E H req (kpre @ kop # kpost) where_ops subcol_ops pk_ops func_ops
         = OK (r2\<lparr>hashed_column_values := hashed_column_values r2 @ [col_pb]\<rparr>, True)"
proof -
  have "key_where_op P kop (r2, k) =
          Exit (OK (r2\<lparr>hashed_column_values := hashed_column_values r2 @ [col_pb]\<rparr>, True))"
    using assms(3-6) by (simp add: key_where_op_def)
  then have "key_where_loop P (kpre @ kop # kpost) (r1, True) =
          Exit (OK (r2\<lparr>hashed_column_values := hashed_column_values r2 @ [col_pb]\<rparr>, True))"
    using assms(2) by (simp add: key_where_loop_append)
  then show ?thesis using assms(1) by (simp add: WhereClauseToPB_read_def)
qed

lemma list_elems_single: "list_elems col_pb = [x] \<Longrightarrow> col_pb = Value (ListValue [x])"
  by (cases col_pb rule: list_elems.cases) auto

text \<open>The bounds of a returned request are those the partition-key loop left.\<close>

lemma partition_key_op_single_ordered:
  assumes "partition_key_op P E H op req = Next r"
    and "hash_code req = None" and "max_hash_code req = None"
    and "hash_code r = Some h" and "max_hash_code r = Some m"
  shows "h < m"
  using assms
  by (auto simp: partition_key_op_def less_succ_hash
      split: sum.splits QLOperator.splits if_splits)

lemma read_OK_bounds:
  assumes "WhereClauseToPB_read P E H req key_ops where_ops subcol_ops pk_ops func_ops = OK (r, nr)"
  shows "\<exists>r1. (partition_key_loop P E H pk_ops req = Exit (OK (r1, nr)) \<or>
               partition_key_loop P E H pk_ops req = Next r1) \<and>
              hash_code r = hash_code r1 \<and> max_hash_code r = max_hash_code r1"
proof -
  from read_OK_cases [OF assms]
  consider (a) "partition_key_loop P E H pk_ops req = Exit (OK (r, nr))"
    | (b) r1 where "partition_key_loop P E H pk_ops req = Next r1"
        "key_where_loop P key_ops (r1, True) = Exit (OK (r, nr))"
    | (c) r1 r2 k where "partition_key_loop P E H pk_ops req = Next r1"
        "key_where_loop P key_ops (r1, True) = Next (r2, k)"
        "where_clause P (r2, k) key_ops where_ops subcol_ops func_ops = OK (r, nr)"
    | (d) r1 r2 k where "partition_key_loop P E H pk_ops req = Next r1"
        "key_where_loop P key_ops (r1, True) = Break (r2, k)"
        "where_clause P (r2, k) key_ops where_ops subcol_ops func_ops = OK (r, nr)"
    by blast
  then show ?thesis
  proof cases
    case a
    then show ?thesis by blast
  next
    case b
    from key_where_loop_Exit_OK [OF b(2)] have
      "hash_code r = hash_code r1 \<and> max_hash_code r = max_hash_code r1" by auto
    with b(1) show ?thesis by blast
  next
    case c
    from key_where_loop_Next [OF c(2)] have
      "hash_code r2 = hash_code r1 \<and> max_hash_code r2 = max_hash_code r1" by auto
    moreover from where_clause_OK [OF c(3)] have
      "hash_code r = hash_code r2 \<and> max_hash_code r = max_hash_code r2"
      by (auto split: if_splits)
    ultimately show ?thesis using c(1) by auto
  next
    case d
    from key_where_loop_Break [OF d(2)] have
      "hash_code r2 = hash_code r1 \<and> max_hash_code r2 = max_hash_code r1" by auto
    moreover from where_clause_OK [OF d(3)] have
      "hash_code r = hash_code r2 \<and> max_hash_code r = max_hash_code r2"
      by (auto split: if_splits)
    ultimately show ?thesis using d(1) by auto
  qed
qed

text \<open>Key lists without a multi-valued \<open>IN\<close>: the key loop cannot break.\<close>

lemma key_where_loop_Break_multi:
  assumes "key_where_loop P ops st = Break st'"
  shows "\<exists>m \<in> set ops. co_yb_op m = QL_OP_IN \<and>
           (\<exists>y. P (co_expr m) = Inr y \<and> 2 \<le> length (list_elems y))"
  using assms
proof (induction ops arbitrary: st)
  case Nil
  then show ?case by simp
next
  case (Cons op ops)
  obtain req k where st: "st = (req, k)" by (cases st)
  obtain r' k' where st': "st' = (r', k')" by (cases st')
  show ?case
  proof (cases "key_where_op P op st")
    case (Exit out)
    with Cons.prems show ?thesis by simp
  next
    case (Break s)
    with Cons.prems have "key_where_op P op (req, k) = Break (r', k')"
      using st st' by simp
    from key_where_op_Break [OF this] show ?thesis by auto
  next
    case (Next s)
    with Cons.prems have "key_where_loop P ops s = Break st'" by simp
    from Cons.IH [OF this] show ?thesis by auto
  qed
qed

lemma read_OK_no_multi_bindings:
  assumes "WhereClauseToPB_read P E H req key_ops where_ops subcol_ops pk_ops func_ops
             = OK (r, False)"
    and "\<forall>ko \<in> set key_ops. \<forall>y.
           co_yb_op ko = QL_OP_IN \<and> P (co_expr ko) = Inr y \<longrightarrow> length (list_elems y) < 2"
  shows "\<exists>bs. hashed_column_values r = hashed_column_values req @ bs \<and>
              list_all2 (\<lambda>op b. \<exists>x. P (co_expr op) = Inr x \<and>
                  b = (if co_yb_op op = QL_OP_IN then Value (hd (list_elems x)) else x))
                key_ops bs"
proof -
  from read_OK_cases [OF assms(1)] partition_key_loop_Exit_OK [of P E H pk_ops req r False]
  obtain r1 where pk: "partition_key_loop P E H pk_ops req = Next r1" and
    key: "key_where_loop P key_ops (r1, True) = Exit (OK (r, False)) \<or>
          (\<exists>r2 k. (key_where_loop P key_ops (r1, True) = Next (r2, k) \<or>
                    key_where_loop P key_ops (r1, True) = Break (r2, k)) \<and>
             where_clause P (r2, k) key_ops where_ops subcol_ops func_ops = OK (r, False))"
    by blast
  from key key_where_loop_Exit_OK [of P key_ops r1 True r False]
  obtain r2 k where
    loop: "key_where_loop P key_ops (r1, True) = Next (r2, k) \<or>
           key_where_loop P key_ops (r1, True) = Break (r2, k)" and
    w: "where_clause P (r2, k) key_ops where_ops subcol_ops func_ops = OK (r, False)"
    by blast
  have "key_where_loop P key_ops (r1, True) \<noteq> Break (r2, k)"
  proof
    assume "key_where_loop P key_ops (r1, True) = Break (r2, k)"
    from key_where_loop_Break_multi [OF this] assms(2) show False by fastforce
  qed
  with loop have n: "key_where_loop P key_ops (r1, True) = Next (r2, k)" by simp
  from key_where_loop_Next [OF n] obtain bs where
    bs: "r2 = r1\<lparr>hashed_column_values := hashed_column_values r1 @ bs\<rparr>"
      "list_all2 (\<lambda>op b. \<exists>x. P (co_expr op) = Inr x \<and>
          b = (if co_yb_op op = QL_OP_IN then Value (hd (list_elems x)) else x)) key_ops bs"
    by blast
  have "hashed_column_values r = hashed_column_values r2"
    using where_clause_OK [OF w] by (auto split: if_splits)
  moreover have "hashed_column_values r1 = hashed_column_values req"
    using partition_key_loop_Next [OF pk] by simp
  ultimately have "hashed_column_values r = hashed_column_values req @ bs"
    using bs(1) by simp
  with bs(2) show ?thesis by blast
qed

lemma read_same_without_break:
  assumes same: "\<And>st. key_where_loop P ks st = key_where_loop P ks' st"
    and nm: "\<forall>ko \<in> set ks. \<forall>y.
           co_yb_op ko = QL_OP_IN \<and> P (co_expr ko) = Inr y \<longrightarrow> length (list_elems y) < 2"
  shows "WhereClauseToPB_read P E H req ks where_ops subcol_ops pk_ops func_ops
         = WhereClauseToPB_read P E H req ks' where_ops subcol_ops pk_ops func_ops"
proof (cases "partition_key_loop P E H pk_ops req")
  case (Exit out)
  then show ?thesis by (simp add: WhereClauseToPB_read_def)
next
  case (Break r1)
  then show ?thesis by (simp add: partition_key_loop_not_Break)
next
  case (Next r1)
  show ?thesis
  proof (cases "key_where_loop P ks (r1, True)")
    case (Exit out)
    then have "key_where_loop P ks' (r1, True) = Exit out"
      using same [of "(r1, True)"] by simp
    with Next Exit show ?thesis by (simp add: WhereClauseToPB_read_def)
  next
    case (Break s)
    from key_where_loop_Break_multi [OF Break] nm have False by fastforce
    then show ?thesis ..
  next
    case Next2: (Next s)
    obtain r2 k where s: "s = (r2, k)" by (cases s)
    from key_where_loop_Next [of P ks r1 True r2 k] Next2 s have k: "k" by simp
    have "where_clause P (r2, True) ks where_ops subcol_ops func_ops
          = where_clause P (r2, True) ks' where_ops subcol_ops func_ops"
      by (simp add: where_clause_def)
    moreover have "key_where_loop P ks (r1, True) = Next (r2, True)"
      using Next2 s k by simp
    moreover from this have "key_where_loop P ks' (r1, True) = Next (r2, True)"
      using same [of "(r1, True)"] by simp
    ultimately show ?thesis using Next
      by (simp add: WhereClauseToPB_read_def)
  qed
qed

text \<open>The loops of the write path.\<close>

lemma write_key_loop_append:
  "write_key_loop P (xs @ ys) req =
     (case write_key_loop P xs req of
        OK r \<Rightarrow> write_key_loop P ys r
      | Fatal \<Rightarrow> Fatal
      | NotOK s \<Rightarrow> NotOK s)"
  by (induction xs arbitrary: req) (auto split: outcome.splits)

lemma write_key_op_not_Fatal:
  "is_hash (co_desc op) \<or> is_primary (co_desc op) \<Longrightarrow> write_key_op P op req \<noteq> Fatal"
  by (auto simp: write_key_op_def split: sum.splits)

lemma write_key_loop_not_Fatal:
  "\<forall>op \<in> set ops. is_hash (co_desc op) \<or> is_primary (co_desc op)
   \<Longrightarrow> write_key_loop P ops req \<noteq> Fatal"
proof (induction ops arbitrary: req)
  case Nil
  then show ?case by simp
next
  case (Cons op ops)
  then have "write_key_op P op req \<noteq> Fatal"
    by (simp add: write_key_op_not_Fatal)
  with Cons show ?case by (cases "write_key_op P op req") simp_all
qed

lemma write_key_loop_OK:
  "\<forall>op \<in> set ops. (is_hash (co_desc op) \<or> is_primary (co_desc op)) \<and>
                    (\<exists>x. P (co_expr op) = Inr x)
   \<Longrightarrow> \<exists>r. write_key_loop P ops req = OK r"
proof (induction ops arbitrary: req)
  case Nil
  then show ?case by simp
next
  case (Cons op ops)
  then obtain x where "P (co_expr op) = Inr x"
    and "is_hash (co_desc op) \<or> is_primary (co_desc op)" by auto
  then have "\<exists>r1. write_key_op P op req = OK r1"
    by (cases "is_hash (co_desc op)") (simp_all add: write_key_op_def)
  then obtain r1 where "write_key_op P op req = OK r1" ..
  with Cons show ?case by simp
qed

lemma write_key_loop_OK_primary:
  "write_key_loop P ops req = OK r
   \<Longrightarrow> \<forall>op \<in> set ops. is_hash (co_desc op) \<or> is_primary (co_desc op)"
proof (induction ops arbitrary: req)
  case Nil
  then show ?case by simp
next
  case (Cons op ops)
  from Cons.prems obtain r1 where
    step: "write_key_op P op req = OK r1" and rest: "write_key_loop P ops r1 = OK r"
    by (auto split: outcome.splits)
  from step have "is_hash (co_desc op) \<or> is_primary (co_desc op)"
    by (auto simp: write_key_op_def split: if_splits)
  with Cons.IH [OF rest] show ?case by simp
qed

lemma lower_each_OK:
  "\<forall>a \<in> set xs. \<exists>y. f a = Inr y \<Longrightarrow> \<exists>ys. lower_each f xs = Inr ys"
proof (induction xs)
  case Nil
  then show ?case by simp
next
  case (Cons a xs)
  then obtain y ys where "f a = Inr y" "lower_each f xs = Inr ys" by auto
  then show ?case by simp
qed

lemma write_subcol_op_not_Fatal: "write_subcol_op P op req \<noteq> Fatal"
  by (simp add: write_subcol_op_def split: sum.splits)

lemma write_subcol_loop_not_Fatal: "write_subcol_loop P ops req \<noteq> Fatal"
proof (induction ops arbitrary: req)
  case Nil
  then show ?case by simp
next
  case (Cons op ops)
  with write_subcol_op_not_Fatal [of P op req] show ?case
    by (cases "write_subcol_op P op req") simp_all
qed

lemma write_subcol_loop_OK:
  "\<forall>op \<in> set ops. (\<forall>a \<in> set (sc_args op). \<exists>x. P a = Inr x) \<and> (\<exists>x. P (sc_expr op) = Inr x)
   \<Longrightarrow> \<exists>r. write_subcol_loop P ops req = OK r"
proof (induction ops arbitrary: req)
  case Nil
  then show ?case by simp
next
  case (Cons op ops)
  then have "\<forall>a \<in> set (sc_args op). \<exists>x. P a = Inr x" by simp
  from lower_each_OK [OF this] obtain as where as: "lower_each P (sc_args op) = Inr as" ..
  from Cons.prems obtain x where "P (sc_expr op) = Inr x" by auto
  with as obtain r1 where "write_subcol_op P op req = OK r1"
    by (simp add: write_subcol_op_def)
  with Cons show ?case by simp
qed

subsection \<open>C1: the interval of a returned request\<close>

text \<open>
  Claim C1, as amended. The claim says that every read lowering that returns OK with both
  \<open>hash_code\<close> and \<open>max_hash_code\<close> set has \<open>hash_code < max_hash_code\<close> or else
  \<open>no_results = true\<close>. The code never compares the two bounds: each operation writes
  its own field, and \<open>no_results\<close> is set only at \<open>GT MAX_HASH\<close> and at an empty \<open>IN\<close>
  (see the counterexample below). What holds: for every read lowering of a request with
  no bounds set and at most one partition-key operation that returns OK, if both
  \<open>hash_code\<close> and \<open>max_hash_code\<close> are set then \<open>hash_code < max_hash_code\<close> (both are
  then written by one \<open>EQ v\<close> with \<open>v \<noteq> MAX_HASH\<close>).
\<close>

theorem single_token_op_interval_ordered:
  assumes "WhereClauseToPB_read P E H req key_ops where_ops subcol_ops pk_ops func_ops = OK (r, nr)"
    and "length pk_ops \<le> 1"
    and "hash_code req = None" and "max_hash_code req = None"
    and "hash_code r = Some h" and "max_hash_code r = Some m"
  shows "h < m"
proof -
  from read_OK_bounds [OF assms(1)] assms(5,6) obtain r1 where
    r1: "partition_key_loop P E H pk_ops req = Exit (OK (r1, nr)) \<or>
         partition_key_loop P E H pk_ops req = Next r1"
    and b: "hash_code r1 = Some h" "max_hash_code r1 = Some m"
    by auto
  show ?thesis
  proof (cases pk_ops)
    case Nil
    with r1 b assms(3) show ?thesis by simp
  next
    case (Cons op rest)
    with assms(2) have pk: "pk_ops = [op]" by simp
    show ?thesis
    proof (cases "partition_key_op P E H op req")
      case (Exit out)
      with r1 pk have "partition_key_op P E H op req = Exit (OK (r1, nr))" by simp
      from partition_key_op_Exit_OK [OF this] b assms(3) show ?thesis by simp
    next
      case (Break r')
      then show ?thesis by (simp add: partition_key_op_not_Break)
    next
      case (Next r')
      with r1 pk have "partition_key_op P E H op req = Next r1" by simp
      from partition_key_op_single_ordered [OF this assms(3,4) b] show ?thesis .
    qed
  qed
qed

text \<open>Scenario S2 of the specification: \<open>[EQ 100]\<close> gives the interval from 100 to 101.\<close>

theorem single_token_op_interval_ordered_witness:
  "sample_read new_read_request [] [] [] [token_op QL_OP_EQUAL 100] []
     = OK (new_read_request\<lparr>hash_code := Some 100, max_hash_code := Some 101\<rparr>, False) \<and>
   length [token_op QL_OP_EQUAL 100] \<le> 1 \<and>
   hash_code new_read_request = None \<and> max_hash_code new_read_request = None \<and>
   hash_code (new_read_request\<lparr>hash_code := Some 100, max_hash_code := Some 101\<rparr>) = Some 100 \<and>
   max_hash_code (new_read_request\<lparr>hash_code := Some 100, max_hash_code := Some 101\<rparr>)
     = Some 101 \<and>
   (100 :: 16 word) < 101"
proof -
  have h: "WhereClauseToPB_read sample_PTExprToPB sample_Evaluate sample_CqlToYBHashCode
       new_read_request [] [] [] [token_op QL_OP_EQUAL 100] []
       = OK (new_read_request\<lparr>hash_code := Some 100, max_hash_code := Some 101\<rparr>, False)"
    "length [token_op QL_OP_EQUAL 100] \<le> 1"
    "hash_code new_read_request = None" "max_hash_code new_read_request = None"
    "hash_code (new_read_request\<lparr>hash_code := Some 100, max_hash_code := Some 101\<rparr>) = Some 100"
    "max_hash_code (new_read_request\<lparr>hash_code := Some 100, max_hash_code := Some 101\<rparr>)
       = Some 101"
    by (simp_all add: WhereClauseToPB_read_def partition_key_op_def token_hash_def
        where_clause_def token_op_def int_lit_def sample_CqlToYBHashCode_def kMaxHashCode_def
        new_read_request_def)
  from single_token_op_interval_ordered [OF h] h show ?thesis
    unfolding sample_read_def by blast
qed

text \<open>
  The claim as stated fails: \<open>[GE 20, LT 10]\<close> returns OK with \<open>hash_code = 20\<close>,
  \<open>max_hash_code = 10\<close> and \<open>no_results = false\<close>.
\<close>

theorem inverted_interval_counterexample:
  "sample_read new_read_request [] [] []
     [token_op QL_OP_GREATER_THAN_EQUAL 20, token_op QL_OP_LESS_THAN 10] []
   = OK (\<lparr>hashed_column_values = [], hash_code = Some 20, max_hash_code = Some 10,
           where_expr = None\<rparr>, False) \<and>
   \<not> (20 :: 16 word) < 10"
  by (simp add: sample_read_def WhereClauseToPB_read_def partition_key_op_def token_hash_def
      where_clause_def token_op_def int_lit_def sample_CqlToYBHashCode_def new_read_request_def)

subsection \<open>C2: the partition-key loop follows the transition table\<close>

text \<open>
  Claim C2. For each partition-key operation whose right-hand side folds to the hash value
  \<open>v\<close>, the reducer updates the request as the transition table says: \<open>GT v\<close> sets
  \<open>hash_code = v + 1\<close> unless \<open>v = MAX_HASH\<close>, where the result is declared empty;
  \<open>GE v\<close> sets \<open>hash_code = v\<close>; \<open>LT v\<close> sets \<open>max_hash_code = v\<close>; \<open>LE v\<close> sets
  \<open>max_hash_code = v + 1\<close> unless \<open>v = MAX_HASH\<close>, where nothing changes; \<open>EQ v\<close> sets
  \<open>hash_code = v\<close> and, when \<open>v \<noteq> MAX_HASH\<close>, \<open>max_hash_code = v + 1\<close>.

  Stated for a whole list of operations, applied in order: when every right-hand side
  folds (to the hash values \<open>vs\<close>), the loop of the source ends the way \<open>table_reduce\<close>
  says on the numbers \<open>unat vs\<close>, with the interval the table computes, and touches no
  other field of the request.
\<close>

theorem token_ops_follow_table:
  assumes "list_all2 (\<lambda>op v. token_hash P E H op = Inr v) ops vs"
  shows "case table_reduce (zip (map pk_yb_op ops) (map unat vs)) (interval_of req) of
           Declared_Empty \<Rightarrow>
             (\<exists>r. partition_key_loop P E H ops req = Exit (OK (r, True)) \<and>
                  hashed_column_values r = hashed_column_values req \<and>
                  where_expr r = where_expr req)
         | Table_Fatal \<Rightarrow> partition_key_loop P E H ops req = Exit Fatal
         | Bounds lo hi \<Rightarrow>
             (\<exists>r. partition_key_loop P E H ops req = Next r \<and> interval_of r = (lo, hi) \<and>
                  hashed_column_values r = hashed_column_values req \<and>
                  where_expr r = where_expr req)"
  using assms
proof (induction ops vs arbitrary: req rule: list_all2_induct)
  case Nil
  then show ?case by (simp add: interval_of_def)
next
  case (Cons op ops v vs)
  obtain lo hi where iv: "interval_of req = (lo, hi)" by (cases "interval_of req")
  show ?case
  proof (cases "table_effect (pk_yb_op op) (unat v) (lo, hi)")
    case Declared_Empty
    with partition_key_op_table [OF Cons.hyps(1), of req] iv show ?thesis by simp
  next
    case Table_Fatal
    with partition_key_op_table [OF Cons.hyps(1), of req] iv show ?thesis by simp
  next
    case (Bounds lo' hi')
    with partition_key_op_table [OF Cons.hyps(1), of req] iv
    obtain r where r: "partition_key_op P E H op req = Next r" "interval_of r = (lo', hi')"
      "hashed_column_values r = hashed_column_values req" "where_expr r = where_expr req"
      by auto
    from Cons.IH [of r] r Bounds iv show ?thesis
      by (auto split: table_result.splits)
  qed
qed

text \<open>Scenario S3 of the specification, \<open>[GE 10, LT 20]\<close> on a new request.\<close>

theorem token_ops_follow_table_witness:
  "list_all2
     (\<lambda>op v. token_hash sample_PTExprToPB sample_Evaluate sample_CqlToYBHashCode op = Inr v)
     [token_op QL_OP_GREATER_THAN_EQUAL 10, token_op QL_OP_LESS_THAN 20] [10, 20] \<and>
   (\<exists>r. partition_key_loop sample_PTExprToPB sample_Evaluate sample_CqlToYBHashCode
          [token_op QL_OP_GREATER_THAN_EQUAL 10, token_op QL_OP_LESS_THAN 20] new_read_request
          = Next r \<and>
        interval_of r = (Some 10, Some 20) \<and>
        hashed_column_values r = hashed_column_values new_read_request \<and>
        where_expr r = where_expr new_read_request)"
proof -
  have h: "list_all2
      (\<lambda>op v. token_hash sample_PTExprToPB sample_Evaluate sample_CqlToYBHashCode op = Inr v)
      [token_op QL_OP_GREATER_THAN_EQUAL 10, token_op QL_OP_LESS_THAN 20] [10, 20]"
    by (simp add: token_hash_def token_op_def int_lit_def sample_CqlToYBHashCode_def)
  have t: "table_reduce
      (zip (map pk_yb_op [token_op QL_OP_GREATER_THAN_EQUAL 10, token_op QL_OP_LESS_THAN 20])
           (map unat [10 :: 16 word, 20]))
      (interval_of new_read_request) = Bounds (Some 10) (Some 20)"
    by (simp add: token_op_def interval_of_def new_read_request_def)
  from token_ops_follow_table [OF h, of new_read_request] t h show ?thesis
    by simp
qed

subsection \<open>C3: a multi-valued IN moves the key operations into the residual condition\<close>

text \<open>
  Claim C3, as amended. The claim says that for every read key-operation list with an
  \<open>IN\<close> of two or more elements the final request has no \<open>hashed_column_values\<close> and an
  AND condition holding every key operation. That fails when the call returns before the
  scan reaches that operation (see the counterexample below). What holds: for every read
  lowering that returns OK with \<open>no_results = false\<close> and whose key operations contain an
  \<open>IN\<close> lowered to two or more elements, \<open>hashed_column_values\<close> is empty and
  \<open>where_expr\<close> is a condition with operator AND whose operands include, for every key
  operation, the comparison of its column id with its lowered expression under its
  operator.
\<close>

theorem multi_IN_moves_keys_to_residual:
  assumes "WhereClauseToPB_read P E H req key_ops where_ops subcol_ops pk_ops func_ops
             = OK (r, False)"
    and "m \<in> set key_ops" and "co_yb_op m = QL_OP_IN"
    and "P (co_expr m) = Inr xm" and "2 \<le> length (list_elems xm)"
  shows "hashed_column_values r = [] \<and>
         (\<exists>operands. where_expr r = Some (Condition QL_OP_AND operands) \<and>
            (\<forall>op \<in> set key_ops. \<exists>y. P (co_expr op) = Inr y \<and>
               Condition (co_yb_op op) [ColumnId (col_id (co_desc op)), y] \<in> set operands))"
proof -
  from read_OK_cases [OF assms(1)] partition_key_loop_Exit_OK [of P E H pk_ops req r False]
  obtain r1 where pk: "partition_key_loop P E H pk_ops req = Next r1" and
    key: "key_where_loop P key_ops (r1, True) = Exit (OK (r, False)) \<or>
          (\<exists>r2 k. (key_where_loop P key_ops (r1, True) = Next (r2, k) \<or>
                    key_where_loop P key_ops (r1, True) = Break (r2, k)) \<and>
             where_clause P (r2, k) key_ops where_ops subcol_ops func_ops = OK (r, False))"
    by blast
  from key key_where_loop_Exit_OK [of P key_ops r1 True r False]
  obtain r2 k where
    loop: "key_where_loop P key_ops (r1, True) = Next (r2, k) \<or>
           key_where_loop P key_ops (r1, True) = Break (r2, k)" and
    w: "where_clause P (r2, k) key_ops where_ops subcol_ops func_ops = OK (r, False)"
    by blast
  from loop key_where_loop_Next_no_multi [of P key_ops "(r1, True)" "(r2, k)" m xm] assms(2-5)
  have brk: "key_where_loop P key_ops (r1, True) = Break (r2, k)" by auto
  from key_where_loop_Break [OF brk]
  have k: "\<not> k" and r2: "hashed_column_values r2 = []" by simp_all
  from where_clause_OK [OF w] k obtain ks ws ss fs where
    ks: "lower_each (WhereOpToPB P) key_ops = Inr ks" and
    r: "r = r2\<lparr>where_expr := Some (Condition QL_OP_AND
            (condition_operands (where_expr r2) @ ks @ ws @ ss @ fs))\<rparr>"
    by auto
  have "\<exists>y. P (co_expr op) = Inr y \<and>
          Condition (co_yb_op op) [ColumnId (col_id (co_desc op)), y] \<in> set ks"
    if "op \<in> set key_ops" for op
    using lower_each_member [OF ks that] by (auto simp: WhereOpToPB_def split: sum.splits)
  with r r2 show ?thesis by auto
qed

text \<open>Scenario S5 of the specification: \<open>h1 IN [7, 8, 9]\<close>.\<close>

theorem multi_IN_moves_keys_to_residual_witness:
  "sample_read new_read_request [col_op (hash_col 1) QL_OP_IN (list_lit [7, 8, 9])] [] [] [] []
     = OK (new_read_request\<lparr>where_expr := Some (Condition QL_OP_AND
             [Condition QL_OP_IN
                [ColumnId 1, Value (ListValue [Int64Value 7, Int64Value 8, Int64Value 9])]])\<rparr>,
           False) \<and>
   col_op (hash_col 1) QL_OP_IN (list_lit [7, 8, 9])
     \<in> set [col_op (hash_col 1) QL_OP_IN (list_lit [7, 8, 9])] \<and>
   co_yb_op (col_op (hash_col 1) QL_OP_IN (list_lit [7, 8, 9])) = QL_OP_IN \<and>
   sample_PTExprToPB (co_expr (col_op (hash_col 1) QL_OP_IN (list_lit [7, 8, 9])))
     = Inr (Value (ListValue [Int64Value 7, Int64Value 8, Int64Value 9])) \<and>
   2 \<le> length (list_elems (Value (ListValue [Int64Value 7, Int64Value 8, Int64Value 9]))) \<and>
   hashed_column_values (new_read_request\<lparr>where_expr := Some (Condition QL_OP_AND
             [Condition QL_OP_IN
                [ColumnId 1, Value (ListValue [Int64Value 7, Int64Value 8, Int64Value 9])]])\<rparr>)
     = [] \<and>
   (\<exists>operands.
      where_expr (new_read_request\<lparr>where_expr := Some (Condition QL_OP_AND
             [Condition QL_OP_IN
                [ColumnId 1, Value (ListValue [Int64Value 7, Int64Value 8, Int64Value 9])]])\<rparr>)
        = Some (Condition QL_OP_AND operands) \<and>
      (\<forall>op \<in> set [col_op (hash_col 1) QL_OP_IN (list_lit [7, 8, 9])].
         \<exists>y. sample_PTExprToPB (co_expr op) = Inr y \<and>
             Condition (co_yb_op op) [ColumnId (col_id (co_desc op)), y] \<in> set operands))"
proof -
  let ?m = "col_op (hash_col 1) QL_OP_IN (list_lit [7, 8, 9])"
  let ?x = "Value (ListValue [Int64Value 7, Int64Value 8, Int64Value 9])"
  have h: "WhereClauseToPB_read sample_PTExprToPB sample_Evaluate sample_CqlToYBHashCode
       new_read_request [?m] [] [] [] []
     = OK (new_read_request\<lparr>where_expr := Some (Condition QL_OP_AND
             [Condition QL_OP_IN [ColumnId 1, ?x]])\<rparr>, False)"
    "?m \<in> set [?m]" "co_yb_op ?m = QL_OP_IN" "sample_PTExprToPB (co_expr ?m) = Inr ?x"
    "2 \<le> length (list_elems ?x)"
    by (simp_all add: WhereClauseToPB_read_def key_where_op_def where_clause_def WhereOpToPB_def
        col_op_def hash_col_def list_lit_def new_read_request_def)
  from multi_IN_moves_keys_to_residual [OF h] h show ?thesis
    unfolding sample_read_def by blast
qed

text \<open>
  The claim as stated fails: with \<open>h1 IN []\<close> before \<open>h2 IN [7, 8]\<close> the call returns at the
  empty list with \<open>no_results = true\<close>; the request keeps the entry appended for \<open>h1\<close> and
  has no \<open>where_expr\<close>.
\<close>

theorem multi_IN_after_empty_IN_counterexample:
  "sample_read new_read_request
     [col_op (hash_col 1) QL_OP_IN (list_lit []), col_op (hash_col 2) QL_OP_IN (list_lit [7, 8])]
     [] [] [] []
   = OK (\<lparr>hashed_column_values = [Value (ListValue [])], hash_code = None,
           max_hash_code = None, where_expr = None\<rparr>, True)"
  by (simp add: sample_read_def WhereClauseToPB_read_def key_where_op_def col_op_def hash_col_def
      list_lit_def new_read_request_def)

subsection \<open>C4: an IN with one element is bound like an equality\<close>

text \<open>
  Claim C4, as amended. The claim says that for every read key operation \<open>c IN [x]\<close> the
  entry of \<open>hashed_column_values\<close> for \<open>c\<close> ends up holding \<open>x\<close>, exactly as if the
  operation were \<open>c EQ x\<close>. That fails when a multi-valued \<open>IN\<close> clears the bindings:
  no entry is left for \<open>c\<close>, and the residual condition re-emits the operation as
  \<open>c IN [x]\<close>, not as \<open>c EQ x\<close> (see the counterexample below). What holds: for every
  read key operation \<open>c IN [x]\<close> (the lowered list has exactly the one element \<open>x\<close>) the
  pass of the key loop over it appends the element \<open>x\<close> itself, not the one-element
  list, exactly as the pass over \<open>c EQ x\<close> does, so the key loop is the same on any list
  around the two. When no key operation of the list is an \<open>IN\<close> with two or more
  elements, the whole read lowering gives the same result as with \<open>c EQ x\<close> in its
  place, and every request returned with \<open>no_results = false\<close> has one entry per key
  operation, the one for \<open>c\<close> being \<open>x\<close>. In any returned request that has an entry at
  the position of \<open>c\<close>, that entry is \<open>x\<close>.
\<close>

theorem single_IN_bound_as_equality:
  assumes "is_hash (co_desc op)" and "co_yb_op op = QL_OP_IN"
    and "P (co_expr op) = Inr col_pb" and "list_elems col_pb = [x]"
    and "co_desc op' = co_desc op" and "co_yb_op op' = QL_OP_EQUAL"
    and "P (co_expr op') = Inr (Value x)"
  shows "col_pb = Value (ListValue [x]) \<and>
         key_where_op P op (req, k) =
           Next (req\<lparr>hashed_column_values := hashed_column_values req @ [Value x]\<rparr>, k) \<and>
         key_where_op P op (req, k) = key_where_op P op' (req, k) \<and>
         key_where_loop P (pre @ op # post) st = key_where_loop P (pre @ op' # post) st \<and>
         (\<forall>r nr.
            WhereClauseToPB_read P E H req0 (pre @ op # post) where_ops subcol_ops pk_ops func_ops
              = OK (r, nr) \<and>
            length (hashed_column_values req0) + length pre < length (hashed_column_values r)
            \<longrightarrow> hashed_column_values r ! (length (hashed_column_values req0) + length pre)
                  = Value x) \<and>
         (\<forall>r.
            WhereClauseToPB_read P E H req0 (pre @ op # post) where_ops subcol_ops pk_ops func_ops
              = OK (r, False) \<and>
            (\<forall>ko \<in> set (pre @ op # post). \<forall>y.
               co_yb_op ko = QL_OP_IN \<and> P (co_expr ko) = Inr y \<longrightarrow> length (list_elems y) < 2)
            \<longrightarrow> length (hashed_column_values r)
                  = length (hashed_column_values req0) + length (pre @ op # post) \<and>
                hashed_column_values r ! (length (hashed_column_values req0) + length pre)
                  = Value x) \<and>
         ((\<forall>ko \<in> set (pre @ op # post). \<forall>y.
             co_yb_op ko = QL_OP_IN \<and> P (co_expr ko) = Inr y \<longrightarrow> length (list_elems y) < 2)
          \<longrightarrow> WhereClauseToPB_read P E H req0 (pre @ op # post) where_ops subcol_ops pk_ops
                func_ops
              = WhereClauseToPB_read P E H req0 (pre @ op' # post) where_ops subcol_ops pk_ops
                  func_ops)"
proof -
  let ?i = "length (hashed_column_values req0) + length pre"
  have step: "key_where_op P op (rq, kk) =
           Next (rq\<lparr>hashed_column_values := hashed_column_values rq @ [Value x]\<rparr>, kk)"
    for rq kk
    using assms(1-4) by (simp add: key_where_op_def)
  have step': "key_where_op P op' (rq, kk) = key_where_op P op (rq, kk)" for rq kk
    using assms(1,5-7) by (simp add: step) (simp add: key_where_op_def)
  have same: "key_where_op P op' s = key_where_op P op s" for s
    using step' by (cases s) simp
  have loops: "key_where_loop P (pre @ op # post) st = key_where_loop P (pre @ op' # post) st"
    unfolding key_where_loop_append
    by (cases "key_where_loop P pre st") (simp_all add: same)
  have entry: "hashed_column_values r ! ?i = Value x"
    if ok: "WhereClauseToPB_read P E H req0 (pre @ op # post) where_ops subcol_ops pk_ops func_ops
              = OK (r, nr)"
      and len: "?i < length (hashed_column_values r)" for r nr
  proof -
    from read_OK_cases [OF ok] partition_key_loop_Exit_OK [of P E H pk_ops req0 r nr] len
    obtain r1 where pk: "partition_key_loop P E H pk_ops req0 = Next r1" and
      key: "key_where_loop P (pre @ op # post) (r1, True) = Exit (OK (r, nr)) \<or>
            (\<exists>r2 k. (key_where_loop P (pre @ op # post) (r1, True) = Next (r2, k) \<or>
                      key_where_loop P (pre @ op # post) (r1, True) = Break (r2, k)) \<and>
               where_clause P (r2, k) (pre @ op # post) where_ops subcol_ops func_ops
                 = OK (r, nr))"
      by auto
    have h1: "hashed_column_values r1 = hashed_column_values req0"
      using partition_key_loop_Next [OF pk] by simp
    show ?thesis
    proof (cases "key_where_loop P pre (r1, True)")
      case (Exit out)
      then have "key_where_loop P (pre @ op # post) (r1, True) = Exit out"
        by (simp add: key_where_loop_append)
      with key Exit have "key_where_loop P pre (r1, True) = Exit (OK (r, nr))" by auto
      from key_where_loop_Exit_OK [OF this] h1 len show ?thesis by auto
    next
      case (Break s)
      then have b: "key_where_loop P (pre @ op # post) (r1, True) = Break s"
        by (simp add: key_where_loop_append)
      obtain r2 k2 where s: "s = (r2, k2)" by (cases s)
      from key_where_loop_Break [of P "pre @ op # post" r1 True r2 k2] b s
      have "hashed_column_values r2 = []" "\<not> k2" by simp_all
      moreover from key b s
      have "where_clause P (r2, k2) (pre @ op # post) where_ops subcol_ops func_ops = OK (r, nr)"
        by simp
      ultimately have "hashed_column_values r = []"
        using where_clause_OK [of P r2 k2 "pre @ op # post" where_ops subcol_ops func_ops r nr]
        by auto
      with len show ?thesis by simp
    next
      case (Next s)
      obtain r2 k2 where s: "s = (r2, k2)" by (cases s)
      from key_where_loop_Next [of P pre r1 True r2 k2] Next s obtain bs where
        bs: "hashed_column_values r2 = hashed_column_values r1 @ bs" "length bs = length pre"
        by (auto dest: list_all2_lengthD)
      let ?r3 = "r2\<lparr>hashed_column_values := hashed_column_values r2 @ [Value x]\<rparr>"
      have at: "(hashed_column_values ?r3 @ cs) ! ?i = Value x" for cs
        using bs h1 by (simp add: nth_append)
      have rest: "key_where_loop P (pre @ op # post) (r1, True) = key_where_loop P post (?r3, k2)"
        using Next s by (simp add: key_where_loop_append step)
      show ?thesis
      proof (cases "key_where_loop P post (?r3, k2)")
        case (Exit out)
        with key rest have "key_where_loop P post (?r3, k2) = Exit (OK (r, nr))" by auto
        from key_where_loop_Exit_OK [OF this] obtain cs where
          "hashed_column_values r = hashed_column_values ?r3 @ cs" by auto
        with at [of cs] show ?thesis by simp
      next
        case (Break s')
        obtain r4 k4 where s': "s' = (r4, k4)" by (cases s')
        from key_where_loop_Break [of P post ?r3 k2 r4 k4] Break s'
        have "hashed_column_values r4 = []" by simp
        moreover from key rest Break s'
        have "where_clause P (r4, k4) (pre @ op # post) where_ops subcol_ops func_ops
                = OK (r, nr)"
          by simp
        ultimately have "hashed_column_values r = []"
          using where_clause_OK [of P r4 k4 "pre @ op # post" where_ops subcol_ops func_ops r nr]
          by (auto split: if_splits)
        with len show ?thesis by simp
      next
        case Next': (Next s')
        obtain r4 k4 where s': "s' = (r4, k4)" by (cases s')
        from key_where_loop_Next [of P post ?r3 k2 r4 k4] Next' s' obtain cs where
          cs: "hashed_column_values r4 = hashed_column_values ?r3 @ cs" by auto
        from key rest Next' s'
        have "where_clause P (r4, k4) (pre @ op # post) where_ops subcol_ops func_ops
                = OK (r, nr)"
          by simp
        then have "hashed_column_values r = hashed_column_values r4"
          using where_clause_OK [of P r4 k4 "pre @ op # post" where_ops subcol_ops func_ops r nr]
          by (auto split: if_splits)
        with cs at [of cs] show ?thesis by simp
      qed
    qed
  qed
  have full: "length (hashed_column_values r)
                  = length (hashed_column_values req0) + length (pre @ op # post) \<and>
              hashed_column_values r ! ?i = Value x"
    if ok: "WhereClauseToPB_read P E H req0 (pre @ op # post) where_ops subcol_ops pk_ops func_ops
              = OK (r, False)"
      and nm: "\<forall>ko \<in> set (pre @ op # post). \<forall>y.
               co_yb_op ko = QL_OP_IN \<and> P (co_expr ko) = Inr y \<longrightarrow> length (list_elems y) < 2"
    for r
  proof -
    from read_OK_no_multi_bindings [OF ok nm] obtain bs where
      bs: "hashed_column_values r = hashed_column_values req0 @ bs"
        "list_all2 (\<lambda>op b. \<exists>x. P (co_expr op) = Inr x \<and>
             b = (if co_yb_op op = QL_OP_IN then Value (hd (list_elems x)) else x))
           (pre @ op # post) bs"
      by blast
    have len: "length bs = length (pre @ op # post)"
      using list_all2_lengthD [OF bs(2)] by simp
    have "length pre < length (pre @ op # post)" by simp
    from list_all2_nthD [OF bs(2) this] assms(2-4)
    have "bs ! length pre = Value x" by (simp add: nth_append)
    with bs(1) len show ?thesis by (simp add: nth_append)
  qed
  have whole: "WhereClauseToPB_read P E H req0 (pre @ op # post) where_ops subcol_ops pk_ops
                func_ops
              = WhereClauseToPB_read P E H req0 (pre @ op' # post) where_ops subcol_ops pk_ops
                  func_ops"
    if nm: "\<forall>ko \<in> set (pre @ op # post). \<forall>y.
               co_yb_op ko = QL_OP_IN \<and> P (co_expr ko) = Inr y \<longrightarrow> length (list_elems y) < 2"
  proof (rule read_same_without_break [OF _ nm])
    fix s
    show "key_where_loop P (pre @ op # post) s = key_where_loop P (pre @ op' # post) s"
      unfolding key_where_loop_append
      by (cases "key_where_loop P pre s") (simp_all add: same)
  qed
  from list_elems_single [OF assms(4)] step [of req k] step' [of req k] loops entry full whole
  show ?thesis by (simp (no_asm_simp))
qed

text \<open>
  \<open>h2 IN [7]\<close> between two equalities: three entries, the second one the element 7, and
  the same result as for \<open>h2 EQ 7\<close>.
\<close>

theorem single_IN_bound_as_equality_witness:
  "is_hash (co_desc (col_op (hash_col 2) QL_OP_IN (list_lit [7]))) \<and>
   co_yb_op (col_op (hash_col 2) QL_OP_IN (list_lit [7])) = QL_OP_IN \<and>
   sample_PTExprToPB (co_expr (col_op (hash_col 2) QL_OP_IN (list_lit [7])))
     = Inr (Value (ListValue [Int64Value 7])) \<and>
   list_elems (Value (ListValue [Int64Value 7])) = [Int64Value 7] \<and>
   co_desc (col_op (hash_col 2) QL_OP_EQUAL (int_lit 7))
     = co_desc (col_op (hash_col 2) QL_OP_IN (list_lit [7])) \<and>
   co_yb_op (col_op (hash_col 2) QL_OP_EQUAL (int_lit 7)) = QL_OP_EQUAL \<and>
   sample_PTExprToPB (co_expr (col_op (hash_col 2) QL_OP_EQUAL (int_lit 7)))
     = Inr (Value (Int64Value 7)) \<and>
   key_where_op sample_PTExprToPB (col_op (hash_col 2) QL_OP_IN (list_lit [7]))
     (new_read_request, True)
     = Next (new_read_request\<lparr>hashed_column_values := [Value (Int64Value 7)]\<rparr>, True) \<and>
   key_where_op sample_PTExprToPB (col_op (hash_col 2) QL_OP_IN (list_lit [7]))
     (new_read_request, True)
     = key_where_op sample_PTExprToPB (col_op (hash_col 2) QL_OP_EQUAL (int_lit 7))
         (new_read_request, True) \<and>
   sample_read new_read_request
     ([col_op (hash_col 1) QL_OP_EQUAL (int_lit 5)] @
      col_op (hash_col 2) QL_OP_IN (list_lit [7]) #
      [col_op (hash_col 3) QL_OP_EQUAL (int_lit 9)]) [] [] [] []
     = OK (new_read_request\<lparr>hashed_column_values :=
             [Value (Int64Value 5), Value (Int64Value 7), Value (Int64Value 9)]\<rparr>, False) \<and>
   length (hashed_column_values (new_read_request\<lparr>hashed_column_values :=
             [Value (Int64Value 5), Value (Int64Value 7), Value (Int64Value 9)]\<rparr>)) = 3 \<and>
   hashed_column_values (new_read_request\<lparr>hashed_column_values :=
             [Value (Int64Value 5), Value (Int64Value 7), Value (Int64Value 9)]\<rparr>) ! 1
     = Value (Int64Value 7) \<and>
   sample_read new_read_request
     ([col_op (hash_col 1) QL_OP_EQUAL (int_lit 5)] @
      col_op (hash_col 2) QL_OP_IN (list_lit [7]) #
      [col_op (hash_col 3) QL_OP_EQUAL (int_lit 9)]) [] [] [] []
   = sample_read new_read_request
     ([col_op (hash_col 1) QL_OP_EQUAL (int_lit 5)] @
      col_op (hash_col 2) QL_OP_EQUAL (int_lit 7) #
      [col_op (hash_col 3) QL_OP_EQUAL (int_lit 9)]) [] [] [] []"
proof -
  let ?a = "col_op (hash_col 1) QL_OP_EQUAL (int_lit 5)"
  let ?op = "col_op (hash_col 2) QL_OP_IN (list_lit [7])"
  let ?eq = "col_op (hash_col 2) QL_OP_EQUAL (int_lit 7)"
  let ?b = "col_op (hash_col 3) QL_OP_EQUAL (int_lit 9)"
  let ?r = "new_read_request\<lparr>hashed_column_values :=
             [Value (Int64Value 5), Value (Int64Value 7), Value (Int64Value 9)]\<rparr>"
  note defs = col_op_def hash_col_def list_lit_def int_lit_def new_read_request_def
  have h: "is_hash (co_desc ?op)" "co_yb_op ?op = QL_OP_IN"
    "sample_PTExprToPB (co_expr ?op) = Inr (Value (ListValue [Int64Value 7]))"
    "list_elems (Value (ListValue [Int64Value 7])) = [Int64Value 7]"
    "co_desc ?eq = co_desc ?op" "co_yb_op ?eq = QL_OP_EQUAL"
    "sample_PTExprToPB (co_expr ?eq) = Inr (Value (Int64Value 7))"
    by (simp_all add: defs)
  have nm: "\<forall>ko \<in> set ([?a] @ ?op # [?b]). \<forall>y.
      co_yb_op ko = QL_OP_IN \<and> sample_PTExprToPB (co_expr ko) = Inr y
      \<longrightarrow> length (list_elems y) < 2"
    by (auto simp: defs)
  have run: "WhereClauseToPB_read sample_PTExprToPB sample_Evaluate sample_CqlToYBHashCode
       new_read_request ([?a] @ ?op # [?b]) [] [] [] [] = OK (?r, False)"
    by (simp add: WhereClauseToPB_read_def key_where_op_def where_clause_def defs)
  note t = single_IN_bound_as_equality [OF h, where req = new_read_request and k = True
      and pre = "[?a]" and post = "[?b]" and E = sample_Evaluate and H = sample_CqlToYBHashCode
      and ?req0.0 = new_read_request and where_ops = "[]" and subcol_ops = "[]"
      and pk_ops = "[]" and func_ops = "[]"]
  from t have 1: "key_where_op sample_PTExprToPB ?op (new_read_request, True)
      = Next (new_read_request\<lparr>hashed_column_values := [Value (Int64Value 7)]\<rparr>, True)"
    by (simp add: new_read_request_def)
  from t have 2: "key_where_op sample_PTExprToPB ?op (new_read_request, True)
     = key_where_op sample_PTExprToPB ?eq (new_read_request, True)"
    by blast
  from run nm have both: "WhereClauseToPB_read sample_PTExprToPB sample_Evaluate
       sample_CqlToYBHashCode new_read_request ([?a] @ ?op # [?b]) [] [] [] [] = OK (?r, False) \<and>
     (\<forall>ko \<in> set ([?a] @ ?op # [?b]). \<forall>y.
        co_yb_op ko = QL_OP_IN \<and> sample_PTExprToPB (co_expr ko) = Inr y
        \<longrightarrow> length (list_elems y) < 2)"
    by blast
  from t [THEN conjunct2, THEN conjunct2, THEN conjunct2, THEN conjunct2, THEN conjunct2,
      THEN conjunct1, THEN spec, THEN mp, OF both]
  have 3: "length (hashed_column_values ?r) = 3" "hashed_column_values ?r ! 1 = Value (Int64Value 7)"
    by (simp_all add: new_read_request_def)
  from t [THEN conjunct2, THEN conjunct2, THEN conjunct2, THEN conjunct2, THEN conjunct2,
      THEN conjunct2, THEN mp, OF nm]
  have 4: "sample_read new_read_request ([?a] @ ?op # [?b]) [] [] [] []
     = sample_read new_read_request ([?a] @ ?eq # [?b]) [] [] [] []"
    by (simp add: sample_read_def)
  from run have 5: "sample_read new_read_request ([?a] @ ?op # [?b]) [] [] [] [] = OK (?r, False)"
    by (simp add: sample_read_def)
  from h 1 2 3 4 5 show ?thesis by blast
qed

text \<open>
  The claim as stated fails: in \<open>[h1 IN [7], h2 IN [8, 9]]\<close> the second operation clears
  the bindings, no entry is left for \<open>h1\<close>, and the residual condition holds
  \<open>h1 IN [7]\<close> with the one-element list; with \<open>h1 EQ 7\<close> in its place it holds
  \<open>h1 EQ 7\<close>.
\<close>

theorem single_IN_cleared_counterexample:
  "sample_read new_read_request
     [col_op (hash_col 1) QL_OP_IN (list_lit [7]), col_op (hash_col 2) QL_OP_IN (list_lit [8, 9])]
     [] [] [] []
   = OK (\<lparr>hashed_column_values = [], hash_code = None, max_hash_code = None,
           where_expr = Some (Condition QL_OP_AND
             [Condition QL_OP_IN [ColumnId 1, Value (ListValue [Int64Value 7])],
              Condition QL_OP_IN
                [ColumnId 2, Value (ListValue [Int64Value 8, Int64Value 9])]])\<rparr>, False) \<and>
   sample_read new_read_request
     [col_op (hash_col 1) QL_OP_EQUAL (int_lit 7), col_op (hash_col 2) QL_OP_IN (list_lit [8, 9])]
     [] [] [] []
   = OK (\<lparr>hashed_column_values = [], hash_code = None, max_hash_code = None,
           where_expr = Some (Condition QL_OP_AND
             [Condition QL_OP_EQUAL [ColumnId 1, Value (Int64Value 7)],
              Condition QL_OP_IN
                [ColumnId 2, Value (ListValue [Int64Value 8, Int64Value 9])]])\<rparr>, False)"
  by (simp add: sample_read_def WhereClauseToPB_read_def key_where_op_def where_clause_def
      WhereOpToPB_def col_op_def hash_col_def list_lit_def int_lit_def new_read_request_def)

subsection \<open>C5: an empty result returns at once\<close>

text \<open>
  Claim C5. When the lowering finds that no row can match, at a partition-key operation
  \<open>GT MAX_HASH\<close> or at a key operation \<open>IN\<close> with no elements, it sets
  \<open>no_results = true\<close> and returns OK at once, and every later stage is skipped: the
  result is the request as the operations scanned before left it (with, for the empty
  \<open>IN\<close>, the entry just appended for its column), whatever the operations after it and
  the later operation lists are.
\<close>

theorem empty_result_returns_at_once:
  "(partition_key_loop P E H pre req = Next r1 \<and>
    pk_yb_op tok = QL_OP_GREATER_THAN \<and> token_hash P E H tok = Inr kMaxHashCode
    \<longrightarrow> WhereClauseToPB_read P E H req key_ops where_ops subcol_ops (pre @ tok # post) func_ops
          = OK (r1, True)) \<and>
   (partition_key_loop P E H pk_ops req = Next r1' \<and>
    key_where_loop P kpre (r1', True) = Next (r2, k) \<and>
    is_hash (co_desc kop) \<and> co_yb_op kop = QL_OP_IN \<and>
    P (co_expr kop) = Inr col_pb \<and> list_elems col_pb = []
    \<longrightarrow> WhereClauseToPB_read P E H req (kpre @ kop # kpost) where_ops subcol_ops pk_ops func_ops
          = OK (r2\<lparr>hashed_column_values := hashed_column_values r2 @ [col_pb]\<rparr>, True))"
  using read_token_exit [of P E H pre req r1 tok] read_empty_IN_exit [of P E H pk_ops req r1' kpre r2 k kop col_pb]
  by blast

text \<open>
  Both returns on concrete inputs. The operations that follow would abort or fail if they
  were reached: a key operation on a regular column, and an expression that does not lower.
\<close>

theorem empty_result_returns_at_once_witness:
  "partition_key_loop sample_PTExprToPB sample_Evaluate sample_CqlToYBHashCode
     [token_op QL_OP_GREATER_THAN_EQUAL 10] new_read_request
     = Next (new_read_request\<lparr>hash_code := Some 10\<rparr>) \<and>
   pk_yb_op (token_op QL_OP_GREATER_THAN 0xFFFF) = QL_OP_GREATER_THAN \<and>
   token_hash sample_PTExprToPB sample_Evaluate sample_CqlToYBHashCode
     (token_op QL_OP_GREATER_THAN 0xFFFF) = Inr kMaxHashCode \<and>
   sample_read new_read_request [col_op (regular_col 9) QL_OP_EQUAL Unlowerable] [] []
     ([token_op QL_OP_GREATER_THAN_EQUAL 10] @
      token_op QL_OP_GREATER_THAN 0xFFFF # [token_op QL_OP_LESS_THAN 5]) []
     = OK (new_read_request\<lparr>hash_code := Some 10\<rparr>, True) \<and>
   partition_key_loop sample_PTExprToPB sample_Evaluate sample_CqlToYBHashCode []
     new_read_request = Next new_read_request \<and>
   key_where_loop sample_PTExprToPB [col_op (hash_col 1) QL_OP_EQUAL (int_lit 1)]
     (new_read_request, True)
     = Next (new_read_request\<lparr>hashed_column_values := [Value (Int64Value 1)]\<rparr>, True) \<and>
   is_hash (co_desc (col_op (hash_col 2) QL_OP_IN (list_lit []))) \<and>
   co_yb_op (col_op (hash_col 2) QL_OP_IN (list_lit [])) = QL_OP_IN \<and>
   sample_PTExprToPB (co_expr (col_op (hash_col 2) QL_OP_IN (list_lit [])))
     = Inr (Value (ListValue [])) \<and>
   list_elems (Value (ListValue [])) = [] \<and>
   sample_read new_read_request
     ([col_op (hash_col 1) QL_OP_EQUAL (int_lit 1)] @
      col_op (hash_col 2) QL_OP_IN (list_lit []) #
      [col_op (regular_col 3) QL_OP_EQUAL Unlowerable])
     [col_op (regular_col 4) QL_OP_EQUAL Unlowerable] [] [] []
     = OK (new_read_request\<lparr>hashed_column_values :=
             [Value (Int64Value 1), Value (ListValue [])]\<rparr>, True)"
proof -
  have a: "partition_key_loop sample_PTExprToPB sample_Evaluate sample_CqlToYBHashCode
       [token_op QL_OP_GREATER_THAN_EQUAL 10] new_read_request
       = Next (new_read_request\<lparr>hash_code := Some 10\<rparr>)"
    "pk_yb_op (token_op QL_OP_GREATER_THAN 0xFFFF) = QL_OP_GREATER_THAN"
    "token_hash sample_PTExprToPB sample_Evaluate sample_CqlToYBHashCode
       (token_op QL_OP_GREATER_THAN 0xFFFF) = Inr kMaxHashCode"
    by (simp_all add: partition_key_op_def token_hash_def token_op_def int_lit_def
        sample_CqlToYBHashCode_def kMaxHashCode_def)
  have b: "partition_key_loop sample_PTExprToPB sample_Evaluate sample_CqlToYBHashCode []
       new_read_request = Next new_read_request"
    "key_where_loop sample_PTExprToPB [col_op (hash_col 1) QL_OP_EQUAL (int_lit 1)]
       (new_read_request, True)
       = Next (new_read_request\<lparr>hashed_column_values := [Value (Int64Value 1)]\<rparr>, True)"
    "is_hash (co_desc (col_op (hash_col 2) QL_OP_IN (list_lit [])))"
    "co_yb_op (col_op (hash_col 2) QL_OP_IN (list_lit [])) = QL_OP_IN"
    "sample_PTExprToPB (co_expr (col_op (hash_col 2) QL_OP_IN (list_lit [])))
       = Inr (Value (ListValue []))"
    "list_elems (Value (ListValue [])) = []"
    by (simp_all add: key_where_op_def col_op_def hash_col_def int_lit_def list_lit_def
        new_read_request_def)
  note t = empty_result_returns_at_once
    [where P = sample_PTExprToPB and E = sample_Evaluate and H = sample_CqlToYBHashCode
       and req = new_read_request]
  from a have a': "partition_key_loop sample_PTExprToPB sample_Evaluate sample_CqlToYBHashCode
       [token_op QL_OP_GREATER_THAN_EQUAL 10] new_read_request
       = Next (new_read_request\<lparr>hash_code := Some 10\<rparr>) \<and>
    pk_yb_op (token_op QL_OP_GREATER_THAN 0xFFFF) = QL_OP_GREATER_THAN \<and>
    token_hash sample_PTExprToPB sample_Evaluate sample_CqlToYBHashCode
       (token_op QL_OP_GREATER_THAN 0xFFFF) = Inr kMaxHashCode"
    by blast
  from b have b': "partition_key_loop sample_PTExprToPB sample_Evaluate sample_CqlToYBHashCode []
       new_read_request = Next new_read_request \<and>
    key_where_loop sample_PTExprToPB [col_op (hash_col 1) QL_OP_EQUAL (int_lit 1)]
       (new_read_request, True)
       = Next (new_read_request\<lparr>hashed_column_values := [Value (Int64Value 1)]\<rparr>, True) \<and>
    is_hash (co_desc (col_op (hash_col 2) QL_OP_IN (list_lit []))) \<and>
    co_yb_op (col_op (hash_col 2) QL_OP_IN (list_lit [])) = QL_OP_IN \<and>
    sample_PTExprToPB (co_expr (col_op (hash_col 2) QL_OP_IN (list_lit [])))
       = Inr (Value (ListValue [])) \<and>
    list_elems (Value (ListValue [])) = []"
    by blast
  have 1: "sample_read new_read_request [col_op (regular_col 9) QL_OP_EQUAL Unlowerable] [] []
     ([token_op QL_OP_GREATER_THAN_EQUAL 10] @
      token_op QL_OP_GREATER_THAN 0xFFFF # [token_op QL_OP_LESS_THAN 5]) []
     = OK (new_read_request\<lparr>hash_code := Some 10\<rparr>, True)"
    unfolding sample_read_def by (rule t [THEN conjunct1, THEN mp, OF a'])
  have 2: "sample_read new_read_request
     ([col_op (hash_col 1) QL_OP_EQUAL (int_lit 1)] @
      col_op (hash_col 2) QL_OP_IN (list_lit []) #
      [col_op (regular_col 3) QL_OP_EQUAL Unlowerable])
     [col_op (regular_col 4) QL_OP_EQUAL Unlowerable] [] [] []
     = OK (new_read_request\<lparr>hashed_column_values :=
             [Value (Int64Value 1), Value (ListValue [])]\<rparr>, True)"
    using t [THEN conjunct2, THEN mp, OF b']
    unfolding sample_read_def by (simp add: new_read_request_def)
  from a b 1 2 show ?thesis by blast
qed

subsection \<open>C6: an equality is the interval of its two bounds\<close>

text \<open>
  Claim C6. For every hash value \<open>v < MAX_HASH\<close>, reducing the partition-key operations
  \<open>[EQ v]\<close> gives the same interval \<open>(hash_code, max_hash_code)\<close> on the request as
  reducing \<open>[GE v, LT v + 1]\<close>: both loops leave the request with \<open>hash_code = v\<close> and
  \<open>max_hash_code = v + 1\<close>, and the whole read lowering cannot tell the two lists apart.
\<close>

theorem eq_is_ge_lt:
  assumes "pk_yb_op e = QL_OP_EQUAL" and "token_hash P E H e = Inr v"
    and "pk_yb_op g = QL_OP_GREATER_THAN_EQUAL" and "token_hash P E H g = Inr v"
    and "pk_yb_op l = QL_OP_LESS_THAN" and "token_hash P E H l = Inr (v + 1)"
    and "v < kMaxHashCode"
  shows "partition_key_loop P E H [e] req =
           Next (req\<lparr>hash_code := Some v, max_hash_code := Some (v + 1)\<rparr>) \<and>
         partition_key_loop P E H [g, l] req =
           Next (req\<lparr>hash_code := Some v, max_hash_code := Some (v + 1)\<rparr>) \<and>
         WhereClauseToPB_read P E H req key_where_ops where_ops subcol_where_ops [e] func_ops =
         WhereClauseToPB_read P E H req key_where_ops where_ops subcol_where_ops [g, l] func_ops"
proof -
  from assms(7) have ne: "v \<noteq> kMaxHashCode" by auto
  have 1: "partition_key_loop P E H [e] req =
           Next (req\<lparr>hash_code := Some v, max_hash_code := Some (v + 1)\<rparr>)"
    using assms(1,2) ne by (simp add: partition_key_op_def)
  have 2: "partition_key_loop P E H [g, l] req =
           Next (req\<lparr>hash_code := Some v, max_hash_code := Some (v + 1)\<rparr>)"
    using assms(3-6) by (simp add: partition_key_op_def)
  show ?thesis
    unfolding WhereClauseToPB_read_def 1 2 by simp
qed

theorem eq_is_ge_lt_witness:
  "pk_yb_op (token_op QL_OP_EQUAL 100) = QL_OP_EQUAL \<and>
   token_hash sample_PTExprToPB sample_Evaluate sample_CqlToYBHashCode
     (token_op QL_OP_EQUAL 100) = Inr 100 \<and>
   pk_yb_op (token_op QL_OP_GREATER_THAN_EQUAL 100) = QL_OP_GREATER_THAN_EQUAL \<and>
   token_hash sample_PTExprToPB sample_Evaluate sample_CqlToYBHashCode
     (token_op QL_OP_GREATER_THAN_EQUAL 100) = Inr 100 \<and>
   pk_yb_op (token_op QL_OP_LESS_THAN 101) = QL_OP_LESS_THAN \<and>
   token_hash sample_PTExprToPB sample_Evaluate sample_CqlToYBHashCode
     (token_op QL_OP_LESS_THAN 101) = Inr (100 + 1) \<and>
   (100 :: 16 word) < kMaxHashCode \<and>
   partition_key_loop sample_PTExprToPB sample_Evaluate sample_CqlToYBHashCode
       [token_op QL_OP_EQUAL 100] new_read_request =
     Next (new_read_request\<lparr>hash_code := Some 100, max_hash_code := Some 101\<rparr>) \<and>
   partition_key_loop sample_PTExprToPB sample_Evaluate sample_CqlToYBHashCode
       [token_op QL_OP_GREATER_THAN_EQUAL 100, token_op QL_OP_LESS_THAN 101] new_read_request =
     Next (new_read_request\<lparr>hash_code := Some 100, max_hash_code := Some 101\<rparr>) \<and>
   sample_read new_read_request [] [] [] [token_op QL_OP_EQUAL 100] [] =
   sample_read new_read_request [] [] []
     [token_op QL_OP_GREATER_THAN_EQUAL 100, token_op QL_OP_LESS_THAN 101] []"
proof -
  have h: "pk_yb_op (token_op QL_OP_EQUAL 100) = QL_OP_EQUAL"
    "token_hash sample_PTExprToPB sample_Evaluate sample_CqlToYBHashCode
       (token_op QL_OP_EQUAL 100) = Inr 100"
    "pk_yb_op (token_op QL_OP_GREATER_THAN_EQUAL 100) = QL_OP_GREATER_THAN_EQUAL"
    "token_hash sample_PTExprToPB sample_Evaluate sample_CqlToYBHashCode
       (token_op QL_OP_GREATER_THAN_EQUAL 100) = Inr 100"
    "pk_yb_op (token_op QL_OP_LESS_THAN 101) = QL_OP_LESS_THAN"
    "token_hash sample_PTExprToPB sample_Evaluate sample_CqlToYBHashCode
       (token_op QL_OP_LESS_THAN 101) = Inr (100 + 1)"
    "(100 :: 16 word) < kMaxHashCode"
    by (simp_all add: token_hash_def token_op_def int_lit_def sample_CqlToYBHashCode_def
        kMaxHashCode_def)
  from eq_is_ge_lt [OF h, of new_read_request "[]" "[]" "[]" "[]"] h show ?thesis
    by (simp add: sample_read_def)
qed

subsection \<open>C7: the fatal branches of the write path\<close>

text \<open>
  Claim C7, as amended. The claim says that on the write path a key operation whose column
  is neither a hash nor a range primary-key column, and a non-empty \<open>where_ops\<close> list,
  each abort the process. That fails when an earlier key operation does not lower: the
  failure is returned at once, before the abort is reached (see the counterexample below).
  What holds: the call aborts at a key operation over such a column once the key
  operations before it have been lowered without failure, and at a non-empty \<open>where_ops\<close>
  once all key operations have been lowered without failure; a lowering failure met in
  the key loop is what the call returns instead; and in no case does a call with such a
  key operation or with a non-empty \<open>where_ops\<close> return OK. When every key operation is
  over a primary-key column and \<open>where_ops\<close> is empty, the fatal branches cannot be
  reached, and the write lowering succeeds, barring failures of the expression lowering:
  it returns OK when every expression of the key and subscripted-column operations lowers.
\<close>

theorem write_fatal_branches:
  "(write_key_loop P pre req = OK r1 \<and> \<not> is_hash (co_desc op) \<and> \<not> is_primary (co_desc op)
    \<longrightarrow> WhereClauseToPB_write P req (pre @ op # post) where_ops subcol_ops = Fatal) \<and>
   (write_key_loop P key_ops req = OK r1' \<and> where_ops \<noteq> []
    \<longrightarrow> WhereClauseToPB_write P req key_ops where_ops subcol_ops = Fatal) \<and>
   (write_key_loop P key_ops req = NotOK s
    \<longrightarrow> WhereClauseToPB_write P req key_ops where_ops subcol_ops = NotOK s) \<and>
   ((\<exists>op \<in> set key_ops. \<not> is_hash (co_desc op) \<and> \<not> is_primary (co_desc op)) \<or>
    where_ops \<noteq> []
    \<longrightarrow> (\<forall>r. WhereClauseToPB_write P req key_ops where_ops subcol_ops \<noteq> OK r)) \<and>
   ((\<forall>op \<in> set key_ops. is_hash (co_desc op) \<or> is_primary (co_desc op)) \<and> where_ops = []
    \<longrightarrow> WhereClauseToPB_write P req key_ops where_ops subcol_ops \<noteq> Fatal) \<and>
   ((\<forall>op \<in> set key_ops. is_hash (co_desc op) \<or> is_primary (co_desc op)) \<and> where_ops = [] \<and>
    (\<forall>op \<in> set key_ops. \<exists>x. P (co_expr op) = Inr x) \<and>
    (\<forall>op \<in> set subcol_ops.
        (\<forall>a \<in> set (sc_args op). \<exists>x. P a = Inr x) \<and> (\<exists>x. P (sc_expr op) = Inr x))
    \<longrightarrow> (\<exists>r. WhereClauseToPB_write P req key_ops where_ops subcol_ops = OK r))"
proof -
  have 1: "WhereClauseToPB_write P req (pre @ op # post) where_ops subcol_ops = Fatal"
    if "write_key_loop P pre req = OK r1" "\<not> is_hash (co_desc op)" "\<not> is_primary (co_desc op)"
  proof -
    from that(2,3) have "write_key_op P op r1 = Fatal" by (simp add: write_key_op_def)
    with that(1) have "write_key_loop P (pre @ op # post) req = Fatal"
      by (simp add: write_key_loop_append)
    then show ?thesis by (simp add: WhereClauseToPB_write_def)
  qed
  have 2: "WhereClauseToPB_write P req key_ops where_ops subcol_ops = Fatal"
    if "write_key_loop P key_ops req = OK r1'" "where_ops \<noteq> []"
    using that by (simp add: WhereClauseToPB_write_def)
  have 3: "WhereClauseToPB_write P req key_ops where_ops subcol_ops = NotOK s"
    if "write_key_loop P key_ops req = NotOK s"
    using that by (simp add: WhereClauseToPB_write_def)
  have 4: "WhereClauseToPB_write P req key_ops where_ops subcol_ops \<noteq> OK r"
    if bad: "(\<exists>op \<in> set key_ops. \<not> is_hash (co_desc op) \<and> \<not> is_primary (co_desc op)) \<or>
             where_ops \<noteq> []" for r
  proof (cases "write_key_loop P key_ops req")
    case Fatal
    then show ?thesis by (simp add: WhereClauseToPB_write_def)
  next
    case (NotOK s')
    then show ?thesis by (simp add: WhereClauseToPB_write_def)
  next
    case (OK r0)
    from write_key_loop_OK_primary [OF OK] bad have "where_ops \<noteq> []" by blast
    with OK show ?thesis by (simp add: WhereClauseToPB_write_def)
  qed
  have 5: "WhereClauseToPB_write P req key_ops where_ops subcol_ops \<noteq> Fatal"
    if "\<forall>op \<in> set key_ops. is_hash (co_desc op) \<or> is_primary (co_desc op)" "where_ops = []"
    using write_key_loop_not_Fatal [OF that(1), of P req] that(2)
      write_subcol_loop_not_Fatal [of P subcol_ops]
    by (cases "write_key_loop P key_ops req") (simp_all add: WhereClauseToPB_write_def)
  have 6: "\<exists>r. WhereClauseToPB_write P req key_ops where_ops subcol_ops = OK r"
    if "\<forall>op \<in> set key_ops. is_hash (co_desc op) \<or> is_primary (co_desc op)" "where_ops = []"
      "\<forall>op \<in> set key_ops. \<exists>x. P (co_expr op) = Inr x"
      "\<forall>op \<in> set subcol_ops.
        (\<forall>a \<in> set (sc_args op). \<exists>x. P a = Inr x) \<and> (\<exists>x. P (sc_expr op) = Inr x)"
  proof -
    from that(1,3) have "\<forall>op \<in> set key_ops.
        (is_hash (co_desc op) \<or> is_primary (co_desc op)) \<and> (\<exists>x. P (co_expr op) = Inr x)"
      by blast
    from write_key_loop_OK [OF this, of req] obtain r1 where
      k: "write_key_loop P key_ops req = OK r1" ..
    from write_subcol_loop_OK [OF that(4), of r1] obtain r where
      "write_subcol_loop P subcol_ops r1 = OK r" ..
    with k that(2) show ?thesis by (simp add: WhereClauseToPB_write_def)
  qed
  from 1 2 3 4 5 6 show ?thesis by blast
qed

theorem write_fatal_branches_witness:
  "write_key_loop sample_PTExprToPB [col_op (hash_col 1) QL_OP_EQUAL (int_lit 1)] new_write_request
     = OK (new_write_request\<lparr>w_hashed_column_values := [Value (Int64Value 1)]\<rparr>) \<and>
   \<not> is_hash (co_desc (col_op (regular_col 3) QL_OP_EQUAL (int_lit 3))) \<and>
   \<not> is_primary (co_desc (col_op (regular_col 3) QL_OP_EQUAL (int_lit 3))) \<and>
   sample_write new_write_request
     ([col_op (hash_col 1) QL_OP_EQUAL (int_lit 1)] @
      col_op (regular_col 3) QL_OP_EQUAL (int_lit 3) # []) [] [] = Fatal \<and>
   [col_op (regular_col 4) QL_OP_EQUAL (int_lit 4)] \<noteq> [] \<and>
   sample_write new_write_request [col_op (hash_col 1) QL_OP_EQUAL (int_lit 1)]
     [col_op (regular_col 4) QL_OP_EQUAL (int_lit 4)] [] = Fatal \<and>
   write_key_loop sample_PTExprToPB [col_op (hash_col 1) QL_OP_EQUAL Unlowerable]
     new_write_request = NotOK ''lowering failed'' \<and>
   sample_write new_write_request [col_op (hash_col 1) QL_OP_EQUAL Unlowerable]
     [col_op (regular_col 4) QL_OP_EQUAL (int_lit 4)] [] = NotOK ''lowering failed'' \<and>
   sample_write new_write_request [col_op (regular_col 3) QL_OP_EQUAL Unlowerable] [] []
     \<noteq> OK new_write_request \<and>
   (is_hash (co_desc (col_op (hash_col 1) QL_OP_EQUAL (int_lit 1))) \<or>
    is_primary (co_desc (col_op (hash_col 1) QL_OP_EQUAL (int_lit 1)))) \<and>
   (is_hash (co_desc (col_op (range_col 2) QL_OP_EQUAL (int_lit 2))) \<or>
    is_primary (co_desc (col_op (range_col 2) QL_OP_EQUAL (int_lit 2)))) \<and>
   sample_write new_write_request
     [col_op (hash_col 1) QL_OP_EQUAL (int_lit 1), col_op (range_col 2) QL_OP_EQUAL (int_lit 2)]
     [] [sub_op (regular_col 3) [int_lit 0] QL_OP_EQUAL Unlowerable] \<noteq> Fatal \<and>
   (\<exists>r. sample_write new_write_request
     [col_op (hash_col 1) QL_OP_EQUAL (int_lit 1), col_op (range_col 2) QL_OP_EQUAL (int_lit 2)]
     [] [sub_op (regular_col 3) [int_lit 0] QL_OP_EQUAL (int_lit 5)] = OK r)"
proof -
  let ?h = "col_op (hash_col 1) QL_OP_EQUAL (int_lit 1)"
  let ?g = "col_op (range_col 2) QL_OP_EQUAL (int_lit 2)"
  let ?c = "col_op (regular_col 3) QL_OP_EQUAL (int_lit 3)"
  let ?w = "col_op (regular_col 4) QL_OP_EQUAL (int_lit 4)"
  let ?u = "col_op (hash_col 1) QL_OP_EQUAL Unlowerable"
  note defs = write_key_op_def col_op_def sub_op_def hash_col_def range_col_def regular_col_def
    int_lit_def new_write_request_def
  note t = write_fatal_branches [where P = sample_PTExprToPB and req = new_write_request]
  have a: "write_key_loop sample_PTExprToPB [?h] new_write_request
       = OK (new_write_request\<lparr>w_hashed_column_values := [Value (Int64Value 1)]\<rparr>) \<and>
     \<not> is_hash (co_desc ?c) \<and> \<not> is_primary (co_desc ?c)"
    by (simp add: defs)
  have b: "write_key_loop sample_PTExprToPB [?h] new_write_request
       = OK (new_write_request\<lparr>w_hashed_column_values := [Value (Int64Value 1)]\<rparr>) \<and>
     [?w] \<noteq> []"
    by (simp add: defs)
  have c: "write_key_loop sample_PTExprToPB [?u] new_write_request = NotOK ''lowering failed''"
    by (simp add: defs)
  have d: "(\<exists>op \<in> set [col_op (regular_col 3) QL_OP_EQUAL Unlowerable].
              \<not> is_hash (co_desc op) \<and> \<not> is_primary (co_desc op)) \<or>
           ([] :: sample_expr ColumnOp list) \<noteq> []"
    by (simp add: defs)
  have e: "(\<forall>op \<in> set [?h, ?g]. is_hash (co_desc op) \<or> is_primary (co_desc op)) \<and>
           ([] :: sample_expr ColumnOp list) = []"
    by (simp add: defs)
  have f: "(\<forall>op \<in> set [?h, ?g]. is_hash (co_desc op) \<or> is_primary (co_desc op)) \<and>
           ([] :: sample_expr ColumnOp list) = [] \<and>
           (\<forall>op \<in> set [?h, ?g]. \<exists>x. sample_PTExprToPB (co_expr op) = Inr x) \<and>
           (\<forall>op \<in> set [sub_op (regular_col 3) [int_lit 0] QL_OP_EQUAL (int_lit 5)].
              (\<forall>a \<in> set (sc_args op). \<exists>x. sample_PTExprToPB a = Inr x) \<and>
              (\<exists>x. sample_PTExprToPB (sc_expr op) = Inr x))"
    by (simp add: defs)
  note 1 = t [THEN conjunct1, THEN mp, OF a, of "[]" "[]" "[]"]
  note 2 = t [THEN conjunct2, THEN conjunct1, THEN mp, OF b, of "[]"]
  note 3 = t [THEN conjunct2, THEN conjunct2, THEN conjunct1, THEN mp, OF c, of "[?w]" "[]"]
  note 4 = t [THEN conjunct2, THEN conjunct2, THEN conjunct2, THEN conjunct1, THEN mp, OF d,
      THEN spec, of "[]" new_write_request]
  note 5 = t [THEN conjunct2, THEN conjunct2, THEN conjunct2, THEN conjunct2, THEN conjunct1,
      THEN mp, OF e, of "[sub_op (regular_col 3) [int_lit 0] QL_OP_EQUAL Unlowerable]"]
  note 6 = t [THEN conjunct2, THEN conjunct2, THEN conjunct2, THEN conjunct2, THEN conjunct2,
      THEN mp, OF f]
  have g: "is_hash (co_desc ?h) \<or> is_primary (co_desc ?h)"
    "is_hash (co_desc ?g) \<or> is_primary (co_desc ?g)"
    using e by simp_all
  from a b c g 1 2 3 4 5 6 show ?thesis
    unfolding sample_write_def by blast
qed

text \<open>
  The claim as stated fails: with a key operation whose expression does not lower, a
  non-empty \<open>where_ops\<close> list, and likewise a later key operation over a regular column,
  do not abort; the call returns the failure.
\<close>

theorem write_failure_before_abort_counterexample:
  "sample_write new_write_request [col_op (hash_col 1) QL_OP_EQUAL Unlowerable]
     [col_op (regular_col 4) QL_OP_EQUAL (int_lit 4)] [] = NotOK ''lowering failed'' \<and>
   sample_write new_write_request
     [col_op (hash_col 1) QL_OP_EQUAL Unlowerable, col_op (regular_col 3) QL_OP_EQUAL (int_lit 3)]
     [] [] = NotOK ''lowering failed''"
  by (simp add: sample_write_def WhereClauseToPB_write_def write_key_op_def col_op_def
      hash_col_def regular_col_def int_lit_def new_write_request_def)

subsection \<open>C8: no residual operations, no \<open>where_expr\<close>\<close>

text \<open>
  Claim C8. For every read input where \<open>key_ops_are_set\<close> stays true and \<open>where_ops\<close>,
  \<open>subcol_where_ops\<close> and \<open>func_ops\<close> are empty, \<open>where_expr\<close> is left as it was (unset on
  a new request): no AND of nothing is emitted. \<open>key_ops_are_set\<close> is the flag in the state
  of the key loop, and it becomes false only together with the \<^verbatim>\<open>break\<close>. So, with no
  residual operations: a call that returns OK with a changed \<open>where_expr\<close> left the key
  loop by that \<^verbatim>\<open>break\<close>, with the flag false; and when the key loop runs to its end, the
  flag is true and the call returns the request of the loop, its \<open>where_expr\<close> untouched.
\<close>

theorem no_residual_leaves_where_expr:
  "(WhereClauseToPB_read P E H req key_ops [] [] pk_ops [] = OK (r, nr) \<and>
    where_expr r \<noteq> where_expr req
    \<longrightarrow> (\<exists>r1 r2. partition_key_loop P E H pk_ops req = Next r1 \<and>
                 key_where_loop P key_ops (r1, True) = Break (r2, False))) \<and>
   (partition_key_loop P E H pk_ops req = Next r1' \<and>
    key_where_loop P key_ops (r1', True) = Next (r2', key_ops_are_set)
    \<longrightarrow> key_ops_are_set \<and>
        WhereClauseToPB_read P E H req key_ops [] [] pk_ops [] = OK (r2', False) \<and>
        where_expr r2' = where_expr req)"
proof -
  have 1: "\<exists>r1 r2. partition_key_loop P E H pk_ops req = Next r1 \<and>
                 key_where_loop P key_ops (r1, True) = Break (r2, False)"
    if ok: "WhereClauseToPB_read P E H req key_ops [] [] pk_ops [] = OK (r, nr)"
      and ne: "where_expr r \<noteq> where_expr req"
  proof -
    from read_OK_cases [OF ok] partition_key_loop_Exit_OK [of P E H pk_ops req r nr] ne
    obtain r1 where pk: "partition_key_loop P E H pk_ops req = Next r1" and
      key: "key_where_loop P key_ops (r1, True) = Exit (OK (r, nr)) \<or>
            (\<exists>r2 k. (key_where_loop P key_ops (r1, True) = Next (r2, k) \<or>
                      key_where_loop P key_ops (r1, True) = Break (r2, k)) \<and>
               where_clause P (r2, k) key_ops [] [] [] = OK (r, nr))"
      by blast
    have r1: "where_expr r1 = where_expr req"
      using partition_key_loop_Next [OF pk] by simp
    have "key_where_loop P key_ops (r1, True) \<noteq> Exit (OK (r, nr))"
      using key_where_loop_Exit_OK [of P key_ops r1 True r nr] r1 ne by auto
    with key obtain r2 k where
      loop: "key_where_loop P key_ops (r1, True) = Next (r2, k) \<or>
             key_where_loop P key_ops (r1, True) = Break (r2, k)" and
      w: "where_clause P (r2, k) key_ops [] [] [] = OK (r, nr)"
      by blast
    have "key_where_loop P key_ops (r1, True) \<noteq> Next (r2, k)"
    proof
      assume n: "key_where_loop P key_ops (r1, True) = Next (r2, k)"
      from key_where_loop_Next [OF n] have "k" "where_expr r2 = where_expr r1" by auto
      with where_clause_OK [OF w] r1 ne show False by simp
    qed
    with loop have b: "key_where_loop P key_ops (r1, True) = Break (r2, k)" by simp
    from key_where_loop_Break [OF b] have "\<not> k" by simp
    with b pk show ?thesis by auto
  qed
  have 2: "key_ops_are_set \<and>
        WhereClauseToPB_read P E H req key_ops [] [] pk_ops [] = OK (r2', False) \<and>
        where_expr r2' = where_expr req"
    if pk: "partition_key_loop P E H pk_ops req = Next r1'"
      and n: "key_where_loop P key_ops (r1', True) = Next (r2', key_ops_are_set)"
  proof -
    from key_where_loop_Next [OF n] have k: "key_ops_are_set"
      and w: "where_expr r2' = where_expr r1'" by auto
    from partition_key_loop_Next [OF pk] have "where_expr r1' = where_expr req" by simp
    with k w pk n show ?thesis
      by (simp add: WhereClauseToPB_read_def where_clause_def)
  qed
  from 1 2 show ?thesis by blast
qed

text \<open>
  \<open>h1 IN [7, 8]\<close> takes the \<^verbatim>\<open>break\<close> and gets a \<open>where_expr\<close>; scenario S4, \<open>h1 IN [7]\<close>,
  keeps the flag and gets none.
\<close>

theorem no_residual_leaves_where_expr_witness:
  "sample_read new_read_request [col_op (hash_col 1) QL_OP_IN (list_lit [7, 8])] [] [] [] []
     = OK (new_read_request\<lparr>where_expr := Some (Condition QL_OP_AND
             [Condition QL_OP_IN [ColumnId 1, Value (ListValue [Int64Value 7, Int64Value 8])]])\<rparr>,
           False) \<and>
   where_expr (new_read_request\<lparr>where_expr := Some (Condition QL_OP_AND
             [Condition QL_OP_IN [ColumnId 1, Value (ListValue [Int64Value 7, Int64Value 8])]])\<rparr>)
     \<noteq> where_expr new_read_request \<and>
   (\<exists>r1 r2. partition_key_loop sample_PTExprToPB sample_Evaluate sample_CqlToYBHashCode []
               new_read_request = Next r1 \<and>
            key_where_loop sample_PTExprToPB [col_op (hash_col 1) QL_OP_IN (list_lit [7, 8])]
               (r1, True) = Break (r2, False)) \<and>
   partition_key_loop sample_PTExprToPB sample_Evaluate sample_CqlToYBHashCode []
     new_read_request = Next new_read_request \<and>
   key_where_loop sample_PTExprToPB [col_op (hash_col 1) QL_OP_IN (list_lit [7])]
     (new_read_request, True)
     = Next (new_read_request\<lparr>hashed_column_values := [Value (Int64Value 7)]\<rparr>, True) \<and>
   sample_read new_read_request [col_op (hash_col 1) QL_OP_IN (list_lit [7])] [] [] [] []
     = OK (new_read_request\<lparr>hashed_column_values := [Value (Int64Value 7)]\<rparr>, False) \<and>
   where_expr (new_read_request\<lparr>hashed_column_values := [Value (Int64Value 7)]\<rparr>)
     = where_expr new_read_request"
proof -
  let ?R = "new_read_request\<lparr>where_expr := Some (Condition QL_OP_AND
             [Condition QL_OP_IN [ColumnId 1, Value (ListValue [Int64Value 7, Int64Value 8])]])\<rparr>"
  have a: "WhereClauseToPB_read sample_PTExprToPB sample_Evaluate sample_CqlToYBHashCode
       new_read_request [col_op (hash_col 1) QL_OP_IN (list_lit [7, 8])] [] [] [] []
       = OK (?R, False) \<and>
     where_expr ?R \<noteq> where_expr new_read_request"
    by (simp add: WhereClauseToPB_read_def key_where_op_def where_clause_def WhereOpToPB_def
        col_op_def hash_col_def list_lit_def new_read_request_def)
  have b: "partition_key_loop sample_PTExprToPB sample_Evaluate sample_CqlToYBHashCode []
       new_read_request = Next new_read_request \<and>
     key_where_loop sample_PTExprToPB [col_op (hash_col 1) QL_OP_IN (list_lit [7])]
       (new_read_request, True)
       = Next (new_read_request\<lparr>hashed_column_values := [Value (Int64Value 7)]\<rparr>, True)"
    by (simp add: key_where_op_def col_op_def hash_col_def list_lit_def new_read_request_def)
  note 1 = no_residual_leaves_where_expr [THEN conjunct1, THEN mp, OF a]
  note 2 = no_residual_leaves_where_expr [THEN conjunct2, THEN mp, OF b]
  from a b 1 2 show ?thesis
    unfolding sample_read_def by blast
qed

subsection \<open>C9: the empty IN leaves the bindings in the request\<close>

text \<open>
  Claim C9. When an empty \<open>IN\<close> list is met on the read path, the call returns with
  \<open>no_results = true\<close> and does not clear \<open>hashed_column_values\<close>: the entries appended
  for the key operations before it (one each: the lowered expression, or the single
  element of a one-element \<open>IN\<close>) and the entry appended for the column of the empty
  \<open>IN\<close> itself are still in the request.
\<close>

theorem empty_IN_keeps_bindings:
  assumes "partition_key_loop P E H pk_ops req = Next r1"
    and "key_where_loop P kpre (r1, True) = Next (r2, k)"
    and "is_hash (co_desc kop)" and "co_yb_op kop = QL_OP_IN"
    and "P (co_expr kop) = Inr col_pb" and "list_elems col_pb = []"
  shows "\<exists>r bs.
           WhereClauseToPB_read P E H req (kpre @ kop # kpost) where_ops subcol_ops pk_ops func_ops
             = OK (r, True) \<and>
           hashed_column_values r = hashed_column_values req @ bs @ [col_pb] \<and>
           list_all2 (\<lambda>op b. \<exists>x. P (co_expr op) = Inr x \<and>
                b = (if co_yb_op op = QL_OP_IN then Value (hd (list_elems x)) else x)) kpre bs"
proof -
  from key_where_loop_Next [OF assms(2)] obtain bs where
    bs: "r2 = r1\<lparr>hashed_column_values := hashed_column_values r1 @ bs\<rparr>"
        "list_all2 (\<lambda>op b. \<exists>x. P (co_expr op) = Inr x \<and>
                b = (if co_yb_op op = QL_OP_IN then Value (hd (list_elems x)) else x)) kpre bs"
    by blast
  have r1: "hashed_column_values r1 = hashed_column_values req"
    using partition_key_loop_Next [OF assms(1)] by simp
  have "hashed_column_values (r2\<lparr>hashed_column_values := hashed_column_values r2 @ [col_pb]\<rparr>)
        = hashed_column_values req @ bs @ [col_pb]"
    using bs(1) r1 by simp
  with read_empty_IN_exit [OF assms, of kpost where_ops subcol_ops func_ops] bs(2)
  show ?thesis by blast
qed

theorem empty_IN_keeps_bindings_witness:
  "partition_key_loop sample_PTExprToPB sample_Evaluate sample_CqlToYBHashCode
     [token_op QL_OP_EQUAL 100] new_read_request
     = Next (new_read_request\<lparr>hash_code := Some 100, max_hash_code := Some 101\<rparr>) \<and>
   key_where_loop sample_PTExprToPB [col_op (hash_col 1) QL_OP_IN (list_lit [7])]
     (new_read_request\<lparr>hash_code := Some 100, max_hash_code := Some 101\<rparr>, True)
     = Next (new_read_request\<lparr>hash_code := Some 100, max_hash_code := Some 101,
               hashed_column_values := [Value (Int64Value 7)]\<rparr>, True) \<and>
   is_hash (co_desc (col_op (hash_col 2) QL_OP_IN (list_lit []))) \<and>
   co_yb_op (col_op (hash_col 2) QL_OP_IN (list_lit [])) = QL_OP_IN \<and>
   sample_PTExprToPB (co_expr (col_op (hash_col 2) QL_OP_IN (list_lit [])))
     = Inr (Value (ListValue [])) \<and>
   list_elems (Value (ListValue [])) = [] \<and>
   (\<exists>r bs.
      sample_read new_read_request
        ([col_op (hash_col 1) QL_OP_IN (list_lit [7])] @
         col_op (hash_col 2) QL_OP_IN (list_lit []) # [])
        [] [] [token_op QL_OP_EQUAL 100] []
        = OK (r, True) \<and>
      hashed_column_values r =
        hashed_column_values new_read_request @ bs @ [Value (ListValue [])] \<and>
      list_all2 (\<lambda>op b. \<exists>x. sample_PTExprToPB (co_expr op) = Inr x \<and>
           b = (if co_yb_op op = QL_OP_IN then Value (hd (list_elems x)) else x))
        [col_op (hash_col 1) QL_OP_IN (list_lit [7])] bs)"
proof -
  have h: "partition_key_loop sample_PTExprToPB sample_Evaluate sample_CqlToYBHashCode
       [token_op QL_OP_EQUAL 100] new_read_request
       = Next (new_read_request\<lparr>hash_code := Some 100, max_hash_code := Some 101\<rparr>)"
    "key_where_loop sample_PTExprToPB [col_op (hash_col 1) QL_OP_IN (list_lit [7])]
       (new_read_request\<lparr>hash_code := Some 100, max_hash_code := Some 101\<rparr>, True)
       = Next (new_read_request\<lparr>hash_code := Some 100, max_hash_code := Some 101,
                 hashed_column_values := [Value (Int64Value 7)]\<rparr>, True)"
    "is_hash (co_desc (col_op (hash_col 2) QL_OP_IN (list_lit [])))"
    "co_yb_op (col_op (hash_col 2) QL_OP_IN (list_lit [])) = QL_OP_IN"
    "sample_PTExprToPB (co_expr (col_op (hash_col 2) QL_OP_IN (list_lit [])))
       = Inr (Value (ListValue []))"
    "list_elems (Value (ListValue [])) = []"
    by (simp_all add: partition_key_op_def token_hash_def token_op_def
        sample_CqlToYBHashCode_def kMaxHashCode_def key_where_op_def col_op_def hash_col_def
        int_lit_def list_lit_def new_read_request_def)
  from empty_IN_keeps_bindings [OF h, of "[]" "[]" "[]" "[]"] h show ?thesis
    unfolding sample_read_def by blast
qed

subsection \<open>C10: a multi-valued IN hides a later empty IN\<close>

text \<open>
  Claim C10, as amended. The claim says that whenever a key operation with a multi-valued
  \<open>IN\<close> (two or more elements) comes before one with an empty \<open>IN\<close> list, \<open>no_results\<close>
  stays false and the empty \<open>IN\<close> is emitted as a residual operand. That fails when the
  call returns before the scan reaches the multi-valued operation (see the counterexample
  below). What holds: if a multi-valued \<open>IN\<close> comes before an empty \<open>IN\<close> in the key
  list and the scan reaches the multi-valued operation (the partition-key loop ran to its
  end and so did the key loop over the operations before it), the scan stops there, so the
  empty \<open>IN\<close> is never inspected: the key loop leaves by its \<^verbatim>\<open>break\<close>; the call never
  aborts; whenever it returns OK, \<open>no_results\<close> is false, \<open>hashed_column_values\<close> is
  empty and the residual AND has the operand for the empty \<open>IN\<close>; and it does return OK,
  with exactly the lowered operations as operands, when every residual operation lowers.
\<close>

theorem multi_IN_hides_later_empty_IN:
  assumes "partition_key_loop P E H pk_ops req = Next r1"
    and "key_where_loop P kpre (r1, True) = Next (r2, k)"
    and "is_hash (co_desc m)" and "co_yb_op m = QL_OP_IN"
    and "P (co_expr m) = Inr xm" and "2 \<le> length (list_elems xm)"
    and "co_yb_op e = QL_OP_IN" and "P (co_expr e) = Inr xe" and "list_elems xe = []"
    and "key_ops = kpre @ m # mid @ e # post"
  shows "key_where_loop P key_ops (r1, True) = Break (r2\<lparr>hashed_column_values := []\<rparr>, False) \<and>
         WhereClauseToPB_read P E H req key_ops where_ops subcol_ops pk_ops func_ops \<noteq> Fatal \<and>
         (\<forall>r nr. WhereClauseToPB_read P E H req key_ops where_ops subcol_ops pk_ops func_ops
                   = OK (r, nr) \<longrightarrow>
                 \<not> nr \<and> hashed_column_values r = [] \<and>
                 (\<exists>operands. where_expr r = Some (Condition QL_OP_AND operands) \<and>
                    Condition QL_OP_IN [ColumnId (col_id (co_desc e)), xe] \<in> set operands)) \<and>
         (\<forall>ks ws ss fs.
            lower_each (WhereOpToPB P) key_ops = Inr ks \<and>
            lower_each (WhereOpToPB P) where_ops = Inr ws \<and>
            lower_each (WhereSubColOpToPB P) subcol_ops = Inr ss \<and>
            lower_each (FuncOpToPB P) func_ops = Inr fs \<longrightarrow>
            WhereClauseToPB_read P E H req key_ops where_ops subcol_ops pk_ops func_ops
              = OK (r2\<lparr>hashed_column_values := [],
                       where_expr := Some (Condition QL_OP_AND
                         (condition_operands (where_expr req) @ ks @ ws @ ss @ fs))\<rparr>, False))"
proof -
  let ?st = "(r2\<lparr>hashed_column_values := []\<rparr>, False)"
  let ?read = "WhereClauseToPB_read P E H req key_ops where_ops subcol_ops pk_ops func_ops"
  have step: "key_where_op P m (r2, k) = Break ?st"
  proof (cases "list_elems xm")
    case Nil
    with assms(6) show ?thesis by simp
  next
    case (Cons a as)
    with assms(6) obtain b bs where "as = b # bs" by (cases as) auto
    with Cons assms(3-5) show ?thesis by (simp add: key_where_op_def)
  qed
  then have loop: "key_where_loop P key_ops (r1, True) = Break ?st"
    using assms(2,10) by (simp add: key_where_loop_append)
  have read: "?read = where_clause P ?st key_ops where_ops subcol_ops func_ops"
    using assms(1) loop by (simp add: WhereClauseToPB_read_def)
  have wexp: "where_expr r2 = where_expr req"
    using key_where_loop_Next [OF assms(2)] partition_key_loop_Next [OF assms(1)] by auto
  have nf: "?read \<noteq> Fatal"
    unfolding read by (simp add: where_clause_def split: sum.splits)
  have ok: "\<not> nr \<and> hashed_column_values r = [] \<and>
            (\<exists>operands. where_expr r = Some (Condition QL_OP_AND operands) \<and>
               Condition QL_OP_IN [ColumnId (col_id (co_desc e)), xe] \<in> set operands)"
    if "?read = OK (r, nr)" for r nr
  proof -
    from that read
    have w: "where_clause P ?st key_ops where_ops subcol_ops func_ops = OK (r, nr)" by simp
    from where_clause_OK [OF w] obtain ks ws ss fs where
      ks: "lower_each (WhereOpToPB P) key_ops = Inr ks" and
      r: "r = (r2\<lparr>hashed_column_values := []\<rparr>)\<lparr>where_expr := Some (Condition QL_OP_AND
            (condition_operands (where_expr (r2\<lparr>hashed_column_values := []\<rparr>)) @
             ks @ ws @ ss @ fs))\<rparr>" and nr: "\<not> nr"
      by auto
    have "e \<in> set key_ops" using assms(10) by simp
    from lower_each_member [OF ks this] assms(7,8)
    have "Condition QL_OP_IN [ColumnId (col_id (co_desc e)), xe] \<in> set ks"
      by (auto simp: WhereOpToPB_def)
    with r nr show ?thesis by simp
  qed
  have all: "?read = OK (r2\<lparr>hashed_column_values := [],
                       where_expr := Some (Condition QL_OP_AND
                         (condition_operands (where_expr req) @ ks @ ws @ ss @ fs))\<rparr>, False)"
    if "lower_each (WhereOpToPB P) key_ops = Inr ks \<and>
        lower_each (WhereOpToPB P) where_ops = Inr ws \<and>
        lower_each (WhereSubColOpToPB P) subcol_ops = Inr ss \<and>
        lower_each (FuncOpToPB P) func_ops = Inr fs" for ks ws ss fs
    unfolding read using that wexp by (simp add: where_clause_def)
  from loop nf ok all show ?thesis by blast
qed

theorem multi_IN_hides_later_empty_IN_witness:
  "partition_key_loop sample_PTExprToPB sample_Evaluate sample_CqlToYBHashCode []
     new_read_request = Next new_read_request \<and>
   key_where_loop sample_PTExprToPB [] (new_read_request, True) = Next (new_read_request, True) \<and>
   is_hash (co_desc (col_op (hash_col 1) QL_OP_IN (list_lit [7, 8]))) \<and>
   co_yb_op (col_op (hash_col 1) QL_OP_IN (list_lit [7, 8])) = QL_OP_IN \<and>
   sample_PTExprToPB (co_expr (col_op (hash_col 1) QL_OP_IN (list_lit [7, 8])))
     = Inr (Value (ListValue [Int64Value 7, Int64Value 8])) \<and>
   2 \<le> length (list_elems (Value (ListValue [Int64Value 7, Int64Value 8]))) \<and>
   co_yb_op (col_op (hash_col 2) QL_OP_IN (list_lit [])) = QL_OP_IN \<and>
   sample_PTExprToPB (co_expr (col_op (hash_col 2) QL_OP_IN (list_lit [])))
     = Inr (Value (ListValue [])) \<and>
   list_elems (Value (ListValue [])) = [] \<and>
   key_where_loop sample_PTExprToPB
     [col_op (hash_col 1) QL_OP_IN (list_lit [7, 8]), col_op (hash_col 2) QL_OP_IN (list_lit [])]
     (new_read_request, True) = Break (new_read_request, False) \<and>
   sample_read new_read_request
     [col_op (hash_col 1) QL_OP_IN (list_lit [7, 8]), col_op (hash_col 2) QL_OP_IN (list_lit [])]
     [] [] [] []
     = OK (new_read_request\<lparr>where_expr := Some (Condition QL_OP_AND
             [Condition QL_OP_IN [ColumnId 1, Value (ListValue [Int64Value 7, Int64Value 8])],
              Condition QL_OP_IN [ColumnId 2, Value (ListValue [])]])\<rparr>, False)"
proof -
  let ?m = "col_op (hash_col 1) QL_OP_IN (list_lit [7, 8])"
  let ?e = "col_op (hash_col 2) QL_OP_IN (list_lit [])"
  have h: "partition_key_loop sample_PTExprToPB sample_Evaluate sample_CqlToYBHashCode []
       new_read_request = Next new_read_request"
    "key_where_loop sample_PTExprToPB [] (new_read_request, True) = Next (new_read_request, True)"
    "is_hash (co_desc ?m)" "co_yb_op ?m = QL_OP_IN"
    "sample_PTExprToPB (co_expr ?m) = Inr (Value (ListValue [Int64Value 7, Int64Value 8]))"
    "2 \<le> length (list_elems (Value (ListValue [Int64Value 7, Int64Value 8])))"
    "co_yb_op ?e = QL_OP_IN"
    "sample_PTExprToPB (co_expr ?e) = Inr (Value (ListValue []))"
    "list_elems (Value (ListValue [])) = []"
    "[?m, ?e] = [] @ ?m # [] @ ?e # []"
    by (simp_all add: col_op_def hash_col_def list_lit_def)
  have le: "lower_each (WhereOpToPB sample_PTExprToPB) [?m, ?e] =
        Inr [Condition QL_OP_IN [ColumnId 1, Value (ListValue [Int64Value 7, Int64Value 8])],
             Condition QL_OP_IN [ColumnId 2, Value (ListValue [])]] \<and>
      lower_each (WhereOpToPB sample_PTExprToPB) [] = Inr [] \<and>
      lower_each (WhereSubColOpToPB sample_PTExprToPB) [] = Inr [] \<and>
      lower_each (FuncOpToPB sample_PTExprToPB) [] = Inr []"
    by (simp add: WhereOpToPB_def col_op_def hash_col_def list_lit_def)
  note t = multi_IN_hides_later_empty_IN [OF h, of "[]" "[]" "[]"]
  from t have 1: "key_where_loop sample_PTExprToPB [?m, ?e] (new_read_request, True) =
      Break (new_read_request, False)"
    by (simp add: new_read_request_def)
  from t [THEN conjunct2, THEN conjunct2, THEN conjunct2, THEN spec, THEN spec, THEN spec,
      THEN spec, THEN mp, OF le]
  have 2: "sample_read new_read_request [?m, ?e] [] [] [] []
     = OK (new_read_request\<lparr>where_expr := Some (Condition QL_OP_AND
             [Condition QL_OP_IN [ColumnId 1, Value (ListValue [Int64Value 7, Int64Value 8])],
              Condition QL_OP_IN [ColumnId 2, Value (ListValue [])]])\<rparr>, False)"
    unfolding sample_read_def by (simp add: new_read_request_def)
  from h(1-9) 1 2 show ?thesis by blast
qed

text \<open>
  The claim as stated fails: with the key list \<open>[h1 IN [7, 8], h2 IN []]\<close> behind a
  partition-key operation \<open>GT MAX_HASH\<close>, and with another empty \<open>IN\<close> in front of the
  list, the call returns with \<open>no_results = true\<close> and no residual condition.
\<close>

theorem multi_IN_not_reached_counterexample:
  "sample_read new_read_request
     [col_op (hash_col 1) QL_OP_IN (list_lit [7, 8]), col_op (hash_col 2) QL_OP_IN (list_lit [])]
     [] [] [token_op QL_OP_GREATER_THAN 0xFFFF] []
   = OK (\<lparr>hashed_column_values = [], hash_code = None, max_hash_code = None,
           where_expr = None\<rparr>, True) \<and>
   sample_read new_read_request
     [col_op (hash_col 0) QL_OP_IN (list_lit []),
      col_op (hash_col 1) QL_OP_IN (list_lit [7, 8]), col_op (hash_col 2) QL_OP_IN (list_lit [])]
     [] [] [] []
   = OK (\<lparr>hashed_column_values = [Value (ListValue [])], hash_code = None,
           max_hash_code = None, where_expr = None\<rparr>, True)"
  by (simp add: sample_read_def WhereClauseToPB_read_def partition_key_op_def token_hash_def
      key_where_op_def token_op_def col_op_def hash_col_def list_lit_def int_lit_def
      sample_CqlToYBHashCode_def kMaxHashCode_def new_read_request_def)

end
